theory Spec2Isabelle
  imports Complex_Main
begin

section \<open>JavaScript numbers\<close>

text \<open>
  The two demos compute with JavaScript numbers, which are binary64 floating-point
  numbers. The computations on data (the simulation, the empirical CDF, the grid, the
  marginals and the conditionals) are modelled over the real numbers, without rounding;
  what is kept there is where a JavaScript number stops being a real:
  \<^item> a division by zero gives \<open>Infinity\<close> or \<open>NaN\<close> in JavaScript; HOL's \<open>x / 0 = 0\<close>
    would hide that, so the divisions of the simulation and of the normalization of the
    conditionals are \<open>js_div\<close>, with the fault \<open>NonFinite\<close> for a zero divisor (the other
    divisions of the source have a divisor that is a positive constant, is at least 1,
    as in \<open>erf\<close>, or is a length under the guard that it is positive);
  \<^item> a result whose magnitude is at most \<open>2^-1075\<close>, half the least positive binary64
    number, is rounded to 0: \<open>js_exp\<close> is \<open>Math.exp\<close> with this underflow, for arguments
    at or below \<open>-1075 ln 2\<close> (about \<open>-745.13\<close>), and \<open>js_mul\<close> the product with it. Just
    above that bound binary64 numbers are coarse, and the rounding there is not
    modelled: the statements about positive results keep away from it;
  \<^item> calling a method of \<open>undefined\<close> raises \<open>TypeError\<close>.

  The constants of the distribution registry are closed expressions, and they are
  evaluated as the code evaluates them: every literal and every operation is rounded
  to the nearest binary64 number, ties to even, by \<open>b64\<close> (with the exponent at least
  \<open>-1074\<close>; numbers beyond the largest binary64 number do not occur).
\<close>

datatype jsfault = TypeError | NonFinite

definition js_div :: "real \<Rightarrow> real \<Rightarrow> jsfault + real" where
  "js_div a b = (if b = 0 then Inl NonFinite else Inr (a / b))"

definition js_exp :: "real \<Rightarrow> real" where
  "js_exp v = (if v \<le> - (1075 * ln 2) then 0 else exp v)"

definition js_mul :: "real \<Rightarrow> real \<Rightarrow> real" where
  "js_mul a b = (if \<bar>a * b\<bar> \<le> 1 / 2 ^ 1075 then 0 else a * b)"

definition round_half_even :: "real \<Rightarrow> int" where
  "round_half_even y =
     (let n = \<lfloor>y\<rfloor>; r = y - of_int n in
      if r < 1 / 2 then n else if 1 / 2 < r then n + 1 else if even n then n else n + 1)"

definition b64 :: "real \<Rightarrow> real" where
  "b64 x =
     (if x = 0 then 0
      else (let e = max (\<lfloor>log 2 \<bar>x\<bar>\<rfloor> - 52) (- 1074) in
            of_int (round_half_even (x / 2 powr of_int e)) * 2 powr of_int e))"

section \<open>The CLT demo (js/clt-demo.js)\<close>

subsection \<open>The standard normal helper\<close>

definition normal_pdf :: "real \<Rightarrow> real" where
  "normal_pdf x = (1 / sqrt (2 * pi)) * js_exp (- 0.5 * x * x)"

text \<open>The Abramowitz and Stegun approximation, with the source's constants.\<close>

definition normal_erf :: "real \<Rightarrow> real" where
  "normal_erf x0 =
     (let sign = (if x0 \<ge> 0 then 1 else - 1);
          x = \<bar>x0\<bar>;
          a1 = 0.254829592;
          a2 = - 0.284496736;
          a3 = 1.421413741;
          a4 = - 1.453152027;
          a5 = 1.061405429;
          p = 0.3275911;
          t = 1.0 / (1.0 + p * x);
          y = 1.0 - (((((a5 * t + a4) * t) + a3) * t + a2) * t + a1) * t * js_exp (- x * x)
      in sign * y)"

definition normal_cdf :: "real \<Rightarrow> real" where
  "normal_cdf x = 0.5 * (1 + normal_erf (x / sqrt 2))"

subsection \<open>The distribution registry\<close>

text \<open>
  The constants of the skewed distribution. The literals 0, 1, 10 and 100 are binary64
  numbers; 0.7 and 0.2 are not, and stand for the nearest ones. \<open>skewed_mean**2\<close> is
  the rounded square.
\<close>

definition skewed_p1 :: real where "skewed_p1 = b64 0.7"
definition skewed_p2 :: real where "skewed_p2 = b64 0.2"

definition skewed_mean :: real where
  "skewed_mean =
     b64 (b64 (b64 (0 * skewed_p1) + b64 (1 * skewed_p2))
          + b64 (10 * b64 (b64 (1 - skewed_p1) - skewed_p2)))"

definition skewed_mean_sq :: real where
  "skewed_mean_sq =
     b64 (b64 (b64 (0 * skewed_p1) + b64 (1 * skewed_p2))
          + b64 (100 * b64 (b64 (1 - skewed_p1) - skewed_p2)))"

definition skewed_var :: real where
  "skewed_var = b64 (skewed_mean_sq - b64 (skewed_mean ^ 2))"

text \<open>
  A registry entry. Every sampler of the source makes exactly one call of
  \<open>Math.random()\<close>; the field \<open>random\<close> is the sampler as a function of the number that
  call returns, a number of the interval \<open>[0, 1)\<close>. The thresholds the samplers compare
  the draw with are binary64 constants, and the comparisons are exact. The exponential
  sampler is taken with the real logarithm for \<open>Math.log\<close>.
\<close>

record distribution =
  mean :: real
  std :: real
  random :: "real \<Rightarrow> real"

definition uniform_dist :: distribution where
  "uniform_dist = \<lparr>mean = 0.5, std = b64 (1 / b64 (sqrt 12)), random = (\<lambda>u. u)\<rparr>"

definition exponential_dist :: distribution where
  "exponential_dist = \<lparr>mean = 1, std = 1, random = (\<lambda>u. - ln (1 - u))\<rparr>"

definition bernoulli_dist :: distribution where
  "bernoulli_dist = \<lparr>mean = 0.5, std = 0.5, random = (\<lambda>u. if u < 0.5 then 1 else 0)\<rparr>"

definition skewed_dist :: distribution where
  "skewed_dist =
     \<lparr>mean = skewed_mean, std = b64 (sqrt skewed_var),
      random = (\<lambda>val. if val < skewed_p1 then 0
                      else if val < b64 (skewed_p1 + skewed_p2) then 1
                      else 10)\<rparr>"

text \<open>
  The object literal \<open>distributions\<close>, read by \<open>distributions[distName]\<close>. A name that is
  not a key gives \<open>undefined\<close> (or an inherited property of the object that has no
  \<open>random\<close> method): \<open>None\<close>.
\<close>

definition distributions :: "string \<Rightarrow> distribution option" where
  "distributions =
     map_of [(''Uniform'', uniform_dist),
             (''Exponential'', exponential_dist),
             (''Bernoulli'', bernoulli_dist),
             (''Skewed Discrete'', skewed_dist)]"

definition registered_names :: "string list" where
  "registered_names = [''Uniform'', ''Exponential'', ''Bernoulli'', ''Skewed Discrete'']"

subsection \<open>The law of a sampler\<close>

text \<open>
  A sampler \<open>g\<close> applied to a number drawn uniformly from the unit interval has the first
  moment \<open>\<integral> g(u) du\<close> and the second moment \<open>\<integral> g(u)\<^sup>2 du\<close>, both over \<open>[0, 1]\<close>. The integral
  is taken by the fundamental theorem of calculus: \<open>integral01 g I\<close> says that \<open>g\<close> has an
  antiderivative \<open>G\<close>, continuous on \<open>[0, 1]\<close> and with derivative \<open>g\<close> in the open interval
  but for finitely many points, such that \<open>G 1 - G 0 = I\<close>. Lemma \<open>integral01_unique\<close> below
  shows that \<open>I\<close> is determined by \<open>g\<close>.
\<close>

definition integral01 :: "(real \<Rightarrow> real) \<Rightarrow> real \<Rightarrow> bool" where
  "integral01 g I \<longleftrightarrow>
     (\<exists>G S. finite S \<and> continuous_on {0..1} G
          \<and> (\<forall>u. 0 < u \<and> u < 1 \<and> u \<notin> S \<longrightarrow> (G has_real_derivative g u) (at u))
          \<and> G 1 - G 0 = I)"

text \<open>
  \<open>law_mean_std g m s\<close>: the law of the sampler \<open>g\<close> has mean \<open>m\<close> and standard deviation
  \<open>s\<close>, the square root of the second moment minus the square of the mean.
\<close>

definition law_mean_std :: "(real \<Rightarrow> real) \<Rightarrow> real \<Rightarrow> real \<Rightarrow> bool" where
  "law_mean_std g m s \<longleftrightarrow>
     (\<exists>m2. integral01 g m \<and> integral01 (\<lambda>u. (g u) ^ 2) m2 \<and> s = sqrt (m2 - m ^ 2))"

text \<open>
  \<open>agrees_within d e\<close>: the declared \<open>mean\<close> and \<open>std\<close> of the entry \<open>d\<close> are within \<open>e\<close> of
  the mean and the standard deviation of the law of its sampler; with \<open>e = 0\<close> they are
  equal to them.
\<close>

definition agrees_within :: "distribution \<Rightarrow> real \<Rightarrow> bool" where
  "agrees_within d e \<longleftrightarrow>
     (\<exists>m s. law_mean_std (random d) m s \<and> \<bar>mean d - m\<bar> \<le> e \<and> \<bar>std d - s\<bar> \<le> e)"

subsection \<open>The simulation of createVisualization\<close>

text \<open>
  \<open>Math.random()\<close> is global state. The numbers it is going to return are a sequence
  \<open>us\<close>, and the state is the position \<open>pos\<close> of the next one.

  The inner loop \<open>for (let j = 0; j < sampleSize; j++) sum += dist.random()\<close>; the first
  argument counts the iterations left. \<open>dist.random()\<close> on a missing entry raises.
\<close>

fun inner_loop ::
  "distribution option \<Rightarrow> nat \<Rightarrow> (nat \<Rightarrow> real) \<Rightarrow> nat \<Rightarrow> real \<Rightarrow> jsfault + (real \<times> nat)" where
  "inner_loop entry 0 us pos s = Inr (s, pos)"
| "inner_loop entry (Suc k) us pos s =
     (case entry of
        None \<Rightarrow> Inl TypeError
      | Some d \<Rightarrow> inner_loop entry k us (Suc pos) (s + random d (us pos)))"

text \<open>
  The guarded standardization \<open>if (dist.std > 0) { const z = ...; standardizedMeans.push(z) }\<close>
  of one sample mean; \<open>acc\<close> is \<open>standardizedMeans\<close> so far.
\<close>

definition standardize ::
  "distribution option \<Rightarrow> int \<Rightarrow> real \<Rightarrow> real list \<Rightarrow> jsfault + real list" where
  "standardize entry n sampleMean acc =
     (case entry of
        None \<Rightarrow> Inl TypeError
      | Some d \<Rightarrow>
          if std d > 0 then
            (case js_div (std d) (sqrt (real_of_int n)) of
               Inl e \<Rightarrow> Inl e
             | Inr se \<Rightarrow>
                 (case js_div (sampleMean - mean d) se of
                    Inl e \<Rightarrow> Inl e
                  | Inr z \<Rightarrow> Inr (acc @ [z])))
          else Inr acc)"

text \<open>The outer loop \<open>for (let i = 0; i < numSimulations; i++)\<close>, iterations left first.\<close>

fun outer_loop ::
  "distribution option \<Rightarrow> int \<Rightarrow> nat \<Rightarrow> (nat \<Rightarrow> real) \<Rightarrow> nat \<Rightarrow> real list
     \<Rightarrow> jsfault + real list" where
  "outer_loop entry n 0 us pos acc = Inr acc"
| "outer_loop entry n (Suc k) us pos acc =
     (case inner_loop entry (nat n) us pos 0 of
        Inl e \<Rightarrow> Inl e
      | Inr (s, pos') \<Rightarrow>
          (case js_div s (real_of_int n) of
             Inl e \<Rightarrow> Inl e
           | Inr sampleMean \<Rightarrow>
               (case standardize entry n sampleMean acc of
                  Inl e \<Rightarrow> Inl e
                | Inr acc' \<Rightarrow> outer_loop entry n k us pos' acc')))"

text \<open>
  Step 1 of \<open>createVisualization\<close> for a registry entry \<open>dist\<close>, a sample size \<open>n\<close> and a
  repetition count \<open>m\<close>: the value of \<open>standardizedMeans\<close>, or the fault raised.
\<close>

definition run_simulation ::
  "distribution option \<Rightarrow> int \<Rightarrow> int \<Rightarrow> (nat \<Rightarrow> real) \<Rightarrow> jsfault + real list" where
  "run_simulation entry n m us =
     (if n > 0 then outer_loop entry n (nat m) us 0 [] else Inr [])"

text \<open>The options object with its defaults, and the lookup of the entry.\<close>

record options =
  distName :: "string option"
  sampleSize :: "int option"
  numSimulations :: "int option"

definition standardizedMeans :: "options \<Rightarrow> (nat \<Rightarrow> real) \<Rightarrow> jsfault + real list" where
  "standardizedMeans opts us =
     (let name = (case distName opts of None \<Rightarrow> ''Uniform'' | Some s \<Rightarrow> s);
          n = (case sampleSize opts of None \<Rightarrow> 10 | Some k \<Rightarrow> k);
          m = (case numSimulations opts of None \<Rightarrow> 2000 | Some k \<Rightarrow> k);
          entry = distributions name
      in run_simulation entry n m us)"

text \<open>The entry point of the specification: \<open>simulate(distributionName, sampleSize, numSimulations)\<close>.\<close>

definition simulate :: "string \<Rightarrow> int \<Rightarrow> int \<Rightarrow> (nat \<Rightarrow> real) \<Rightarrow> jsfault + real list" where
  "simulate name n m us =
     standardizedMeans \<lparr>distName = Some name, sampleSize = Some n, numSimulations = Some m\<rparr> us"

text \<open>A sequence of draws for concrete runs: \<open>0, 1/4, 1/2, 3/4, 0, ...\<close>\<close>

definition quarter_draws :: "nat \<Rightarrow> real" where
  "quarter_draws k = real (k mod 4) / 4"

subsection \<open>The empirical CDF of createVisualization\<close>

text \<open>A point \<open>{x: ..., y: ...}\<close> of a curve.\<close>

record point =
  xval :: real
  yval :: real

text \<open>
  \<open>sortedMeans = standardizedMeans.slice().sort(d3.ascending)\<close> is the ascending sort.
  The loop over \<open>i = 0, ..., sortedMeans.length - 1\<close> pushes two points for each \<open>i\<close>;
  it runs under the guard \<open>sortedMeans.length > 0\<close>, so its two divisions have a
  positive divisor.
\<close>

definition ecdfData :: "real list \<Rightarrow> point list" where
  "ecdfData means =
     (let sortedMeans = sort means in
      if length sortedMeans > 0 then
        foldl (\<lambda>acc i. acc @
                 [\<lparr>xval = sortedMeans ! i, yval = real i / real (length sortedMeans)\<rparr>,
                  \<lparr>xval = sortedMeans ! i, yval = (real i + 1) / real (length sortedMeans)\<rparr>])
              [\<lparr>xval = sortedMeans ! 0, yval = 0\<rparr>]
              [0..<length sortedMeans]
      else [])"

section \<open>The bivariate demo (js/bivariate-demo.js)\<close>

subsection \<open>The grid and the joint density\<close>

definition f :: "real \<Rightarrow> real \<Rightarrow> real" where
  "f x y = - 10 * (y - x * x) ^ 2 - y * y"

text \<open>
  \<open>d3.range(start, stop, step)\<close> of the d3-array library: the
  \<open>max(0, ceil((stop - start) / step))\<close> numbers \<open>start + i * step\<close>.
\<close>

definition d3_range :: "real \<Rightarrow> real \<Rightarrow> real \<Rightarrow> real list" where
  "d3_range start stop step =
     map (\<lambda>i. start + real i * step) [0..<nat \<lceil>(stop - start) / step\<rceil>]"

definition xgrid :: "real list" where
  "xgrid = d3_range (- 2) 2.05 0.05"

definition ygrid :: "real list" where
  "ygrid = d3_range (- 2) 4.05 0.05"

definition dx :: real where
  "dx = xgrid ! 1 - xgrid ! 0"

definition dy :: real where
  "dy = ygrid ! 1 - ygrid ! 0"

text \<open>The joint matrix: one row for each \<open>y\<close> of the reversed \<open>ygrid\<close>.\<close>

definition Z :: "real list list" where
  "Z = map (\<lambda>y. map (\<lambda>x. js_exp (f x y)) xgrid) (rev ygrid)"

subsection \<open>The marginals\<close>

text \<open>
  The read \<open>A[r][c]\<close>: a missing row is \<open>undefined\<close>, and indexing it raises; a missing
  entry of a row is \<open>undefined\<close>, which makes the sum it is added to \<open>NaN\<close>.
\<close>

definition at2 :: "real list list \<Rightarrow> nat \<Rightarrow> nat \<Rightarrow> jsfault + real" where
  "at2 A r c =
     (if r < length A then
        (if c < length (A ! r) then Inr (A ! r ! c) else Inl NonFinite)
      else Inl TypeError)"

text \<open>
  The loop \<open>let sum = 0; for (k of ks) sum += rd(k)\<close> over the indices \<open>ks\<close>, the third
  argument being \<open>sum\<close>.
\<close>

fun sum_loop :: "(nat \<Rightarrow> jsfault + real) \<Rightarrow> nat list \<Rightarrow> real \<Rightarrow> jsfault + real" where
  "sum_loop rd [] s = Inr s"
| "sum_loop rd (k # ks) s =
     (case rd k of Inl e \<Rightarrow> Inl e | Inr v \<Rightarrow> sum_loop rd ks (s + v))"

text \<open>The array a \<open>map\<close> builds, when no callback faults; the first fault otherwise.\<close>

fun collect :: "(jsfault + 'a) list \<Rightarrow> jsfault + 'a list" where
  "collect [] = Inr []"
| "collect (r # rs) =
     (case r of
        Inl e \<Rightarrow> Inl e
      | Inr v \<Rightarrow> (case collect rs of Inl e \<Rightarrow> Inl e | Inr vs \<Rightarrow> Inr (v # vs)))"

definition marginal_x :: "jsfault + real list" where
  "marginal_x =
     collect (map (\<lambda>i. case sum_loop (\<lambda>j. at2 Z j i) [0..<length ygrid] 0 of
                          Inl e \<Rightarrow> Inl e
                        | Inr s \<Rightarrow> Inr (s * dy))
                  [0..<length xgrid])"

definition marginal_y :: "jsfault + real list" where
  "marginal_y =
     collect (map (\<lambda>j. let z_row_index = length ygrid - 1 - j in
                        case sum_loop (\<lambda>i. at2 Z z_row_index i) [0..<length xgrid] 0 of
                          Inl e \<Rightarrow> Inl e
                        | Inr s \<Rightarrow> Inr (s * dx))
                  [0..<length ygrid])"

subsection \<open>The conditionals\<close>

record conditionals =
  x_given_y :: "real list"
  y_given_x :: "real list"

text \<open>
  \<open>getConditionalDistributions\<close>, its local constants first, by their names in the source
  and as functions of the argument they depend on. The values summed can be as small as
  a binary64 number gets, so the product of their sum and the step is \<open>js_mul\<close>: it can
  underflow to 0. JavaScript returns the two arrays in any case; when a normalizing sum
  is 0 their entries are \<open>NaN\<close> or \<open>Infinity\<close>, which is the fault \<open>NonFinite\<close> here.
\<close>

definition conditional_x_given_y :: "real \<Rightarrow> real list" where
  "conditional_x_given_y y_value = map (\<lambda>x. js_exp (f x y_value)) xgrid"

definition sum_x :: "real \<Rightarrow> real" where
  "sum_x y_value = js_mul (foldl (\<lambda>a b. a + b) 0 (conditional_x_given_y y_value)) dx"

definition normalized_x_given_y :: "real \<Rightarrow> jsfault + real list" where
  "normalized_x_given_y y_value =
     collect (map (\<lambda>v. js_div v (sum_x y_value)) (conditional_x_given_y y_value))"

definition conditional_y_given_x :: "real \<Rightarrow> real list" where
  "conditional_y_given_x x_value = map (\<lambda>y. js_exp (f x_value y)) ygrid"

definition sum_y :: "real \<Rightarrow> real" where
  "sum_y x_value = js_mul (foldl (\<lambda>a b. a + b) 0 (conditional_y_given_x x_value)) dy"

definition normalized_y_given_x :: "real \<Rightarrow> jsfault + real list" where
  "normalized_y_given_x x_value =
     collect (map (\<lambda>v. js_div v (sum_y x_value)) (conditional_y_given_x x_value))"

definition getConditionalDistributions :: "real \<Rightarrow> real \<Rightarrow> jsfault + conditionals" where
  "getConditionalDistributions x_value y_value =
     (case normalized_x_given_y y_value of
        Inl e \<Rightarrow> Inl e
      | Inr nx \<Rightarrow>
          (case normalized_y_given_x x_value of
             Inl e \<Rightarrow> Inl e
           | Inr ny \<Rightarrow> Inr \<lparr>x_given_y = nx, y_given_x = ny\<rparr>))"

text \<open>The Riemann sum of a vector over a grid of step \<open>h\<close>.\<close>

definition riemann_sum :: "real list \<Rightarrow> real \<Rightarrow> real" where
  "riemann_sum vs h = (\<Sum>v\<leftarrow>vs. v * h)"

section \<open>Properties of the simulation\<close>

lemma simulate_eq: "simulate name n m us = run_simulation (distributions name) n m us"
  by (simp add: simulate_def standardizedMeans_def)

lemma inner_loop_Some:
  "inner_loop (Some d) k us pos s =
     Inr (s + (\<Sum>j<k. random d (us (pos + j))), pos + k)"
proof (induction k arbitrary: pos s)
  case 0
  show ?case by simp
next
  case (Suc k)
  have "(\<Sum>j<Suc k. random d (us (pos + j))) =
        random d (us pos) + (\<Sum>j<k. random d (us (Suc pos + j)))"
    by (subst sum.lessThan_Suc_shift) simp
  with Suc.IH [of "Suc pos" "s + random d (us pos)"] show ?case by simp
qed

lemma inner_loop_None: "0 < k \<Longrightarrow> inner_loop None k us pos s = Inl TypeError"
  by (cases k) simp_all

lemma standardize_zero_std: "std d \<le> 0 \<Longrightarrow> standardize (Some d) n sm acc = Inr acc"
  by (simp add: standardize_def)

lemma outer_loop_zero_std:
  "std d \<le> 0 \<Longrightarrow> 0 < n \<Longrightarrow> outer_loop (Some d) n k us pos acc = Inr acc"
  by (induction k arbitrary: pos acc)
     (simp_all add: inner_loop_Some js_div_def standardize_zero_std)

lemma outer_loop_None:
  "0 < n \<Longrightarrow> 0 < k \<Longrightarrow> outer_loop None n k us pos acc = Inl TypeError"
  by (cases k) (simp_all add: inner_loop_None)

text \<open>
  With a positive \<open>std\<close> and a positive sample size both divisors of the standardization
  are positive: every repetition appends one value and no run ends in a fault.
\<close>

lemma standardize_positive_std:
  assumes "0 < std d" "0 < n"
  shows "standardize (Some d) n sm acc
           = Inr (acc @ [(sm - mean d) / (std d / sqrt (real_of_int n))])"
  using assms by (simp add: standardize_def js_div_def)

lemma outer_loop_positive_std:
  assumes "0 < std d" "0 < n"
  shows "\<exists>zs. outer_loop (Some d) n k us pos acc = Inr (acc @ zs) \<and> length zs = k"
proof (induction k arbitrary: pos acc)
  case 0
  show ?case by simp
next
  case (Suc k)
  let ?s = "0 + (\<Sum>j<nat n. random d (us (pos + j)))"
  let ?z = "(?s / real_of_int n - mean d) / (std d / sqrt (real_of_int n))"
  from Suc.IH [of "pos + nat n" "acc @ [?z]"] obtain zs where
    zs: "outer_loop (Some d) n k us (pos + nat n) (acc @ [?z]) = Inr ((acc @ [?z]) @ zs)"
        "length zs = k"
    by blast
  have "outer_loop (Some d) n (Suc k) us pos acc = Inr (acc @ (?z # zs))"
    using assms(2) zs(1)
    by (simp add: inner_loop_Some js_div_def standardize_positive_std [OF assms])
  with zs(2) show ?case by (intro exI [of _ "?z # zs"]) simp
qed

lemma simulation_one_value_per_repetition:
  assumes "0 < std d" "0 < n"
  shows "\<exists>zs. run_simulation (Some d) n m us = Inr zs \<and> length zs = nat m"
  using outer_loop_positive_std [OF assms, of "nat m" us 0 "[]"] assms(2)
  by (simp add: run_simulation_def)

lemma simulation_example:
  "simulate ''Bernoulli'' 1 2 quarter_draws = Inr [1, 1]"
proof -
  have "outer_loop (Some bernoulli_dist) 1 (Suc (Suc 0)) quarter_draws 0 [] = Inr [1, 1]"
    by (simp add: standardize_def js_div_def bernoulli_dist_def quarter_draws_def)
  then show ?thesis
    by (simp add: simulate_eq run_simulation_def distributions_def numeral_2_eq_2)
qed

lemma distributions_unregistered:
  "name \<notin> set registered_names \<Longrightarrow> distributions name = None"
  by (simp add: distributions_def registered_names_def)

lemma distributions_registered:
  "name \<in> set registered_names \<Longrightarrow> \<exists>d. distributions name = Some d"
  by (auto simp add: distributions_def registered_names_def)

text \<open>
  C5. For a registry entry whose \<open>std\<close> is 0, whatever the sample size, the repetition
  count and the draws, \<open>standardizedMeans\<close> stays empty and no fault occurs; and on every
  sample mean the standardization step takes the branch without the division, leaving
  the sequence as it is: its guard \<open>dist.std > 0\<close> is false, so
  \<open>dist.std / Math.sqrt(sampleSize)\<close> is not evaluated and nothing is divided by zero.
\<close>

theorem zero_std_no_standardization:
  assumes "std d = 0"
  shows "run_simulation (Some d) n m us = Inr []
       \<and> \<not> (std d > 0)
       \<and> standardize (Some d) n sampleMean acc = Inr acc"
proof -
  from assms have le: "std d \<le> 0" by simp
  have "run_simulation (Some d) n m us = Inr []"
    by (simp add: run_simulation_def outer_loop_zero_std [OF le])
  moreover have "standardize (Some d) n sampleMean acc = Inr acc"
    by (rule standardize_zero_std [OF le])
  ultimately show ?thesis using assms by simp
qed

theorem zero_std_no_standardization_witness:
  "std (bernoulli_dist\<lparr>std := 0\<rparr>) = 0
   \<and> run_simulation (Some (bernoulli_dist\<lparr>std := 0\<rparr>)) 3 2 quarter_draws = Inr []
   \<and> standardize (Some (bernoulli_dist\<lparr>std := 0\<rparr>)) 3 (1/3) [] = Inr []"
  using zero_std_no_standardization [of "bernoulli_dist\<lparr>std := 0\<rparr>" 3 2 quarter_draws "1/3" "[]"]
  by simp

text \<open>
  C6. With sample size 0 the simulation returns the empty sequence, for each of the four
  registered names (each of which has an entry), every repetition count and all draws.
\<close>

theorem sample_size_zero_empty:
  assumes "name \<in> set registered_names"
  shows "distributions name \<noteq> None \<and> simulate name 0 m us = Inr []"
  using distributions_registered [OF assms]
  by (auto simp add: simulate_eq run_simulation_def)

theorem sample_size_zero_empty_witness:
  "''Bernoulli'' \<in> set registered_names
   \<and> distributions ''Bernoulli'' \<noteq> None
   \<and> simulate ''Bernoulli'' 0 2000 quarter_draws = Inr []"
  using sample_size_zero_empty [of "''Bernoulli''" 2000 quarter_draws]
  by (simp add: registered_names_def)

text \<open>
  C9, as the code has it. The entry of an unregistered name is missing, and nothing
  checks the name: the simulation raises \<open>TypeError\<close> at the first \<open>dist.random()\<close>, which
  is reached exactly when both loops run, that is when the sample size and the
  repetition count are positive. Otherwise it returns the empty sequence.
\<close>

theorem unregistered_name_outcome:
  assumes "name \<notin> set registered_names"
  shows "simulate name n m us = (if 0 < n \<and> 0 < m then Inl TypeError else Inr [])"
proof -
  have none: "distributions name = None"
    by (rule distributions_unregistered [OF assms])
  show ?thesis
  proof (cases "0 < n \<and> 0 < m")
    case True
    then have "outer_loop None n (nat m) us 0 [] = Inl TypeError"
      by (intro outer_loop_None) simp_all
    with True none show ?thesis
      by (simp add: simulate_eq run_simulation_def)
  next
    case False
    then have "n \<le> 0 \<or> nat m = 0" by auto
    with False none show ?thesis
      by (auto simp add: simulate_eq run_simulation_def)
  qed
qed

theorem unregistered_name_outcome_witness:
  "''Gamma'' \<notin> set registered_names
   \<and> simulate ''Gamma'' 30 2000 quarter_draws = Inl TypeError
   \<and> simulate ''Gamma'' 30 0 quarter_draws = Inr []"
  using unregistered_name_outcome [of "''Gamma''" 30 2000 quarter_draws]
        unregistered_name_outcome [of "''Gamma''" 30 0 quarter_draws]
  by (simp add: registered_names_def)

text \<open>
  C9 as claimed fails: with sample size 0 the simulation of an unregistered name returns
  normally.
\<close>

theorem unregistered_name_sample_size_zero:
  "''Gamma'' \<notin> set registered_names \<and> simulate ''Gamma'' 0 2000 quarter_draws = Inr []"
  by (simp add: registered_names_def simulate_eq run_simulation_def)

subsection \<open>The normal helper\<close>

lemma erf0: "normal_erf 0 = 1 / 10 ^ 9"
  by (simp add: normal_erf_def js_exp_def Let_def)

text \<open>
  C8, as the code has it. The five coefficients add up to \<open>0.999999999\<close>, so at 0 the
  approximation gives \<open>erf(0) = 1 - 0.999999999 = 10^-9\<close> and
  \<open>\<Phi>(0) = 0.5 * (1 + 10^-9)\<close>: not 0 and 0.5, but within the error bound
  \<open>1.5 * 10^-7\<close> of the approximation (half of it for \<open>\<Phi>\<close>).
\<close>

theorem erf_at_zero: "normal_erf 0 = 1 / 10 ^ 9 \<and> normal_cdf 0 = 0.5 * (1 + 1 / 10 ^ 9)
   \<and> \<bar>normal_erf 0 - 0\<bar> \<le> 1.5 / 10 ^ 7 \<and> \<bar>normal_cdf 0 - 0.5\<bar> \<le> 0.75 / 10 ^ 7"
  by (simp add: normal_cdf_def erf0)

text \<open>C8 as claimed fails: \<open>erf(0)\<close> is not 0 and \<open>\<Phi>(0)\<close> is not 0.5.\<close>

theorem erf_at_zero_not_exact: "normal_erf 0 \<noteq> 0 \<and> normal_cdf 0 \<noteq> 0.5"
  by (simp add: normal_cdf_def erf0)

subsection \<open>The empirical CDF\<close>

lemma foldl_append_concat: "foldl (\<lambda>acc i. acc @ g i) init ks = init @ concat (map g ks)"
  by (induction ks arbitrary: init) simp_all

lemma length_concat_pairs: "length (concat (map (\<lambda>i. [a i, b i]) [0..<m])) = 2 * m"
  by (induction m) simp_all

lemma concat_pairs_nth:
  "i < m \<Longrightarrow> concat (map (\<lambda>i. [a i, b i]) [0..<m]) ! (2 * i) = a i
           \<and> concat (map (\<lambda>i. [a i, b i]) [0..<m]) ! (2 * i + 1) = b i"
proof (induction m)
  case 0
  then show ?case by simp
next
  case (Suc m)
  show ?case
  proof (cases "i < m")
    case True
    with Suc.IH show ?thesis
      by (simp add: nth_append length_concat_pairs)
  next
    case False
    with Suc.prems have "i = m" by simp
    then show ?thesis
      by (simp add: nth_append length_concat_pairs)
  qed
qed

lemma sort_eq_Nil_iff: "sort ys = [] \<longleftrightarrow> ys = []"
proof -
  have "length (sort ys) = 0 \<longleftrightarrow> length ys = 0" by simp
  then show ?thesis by (simp only: length_0_conv)
qed

lemma ecdfData_eq:
  assumes "means \<noteq> []"
  shows "ecdfData means =
           \<lparr>xval = sort means ! 0, yval = 0\<rparr> #
           concat (map (\<lambda>i. [\<lparr>xval = sort means ! i, yval = real i / real (length means)\<rparr>,
                              \<lparr>xval = sort means ! i, yval = (real i + 1) / real (length means)\<rparr>])
                       [0..<length means])"
  using assms by (simp add: ecdfData_def Let_def foldl_append_concat sort_eq_Nil_iff)

lemma sorted_first_Min:
  assumes "sorted ys" "ys \<noteq> []"
  shows "ys ! 0 = Min (set ys)"
proof (rule sym, rule Min_eqI)
  show "finite (set ys)" by simp
  show "ys ! 0 \<in> set ys" using assms(2) by simp
  fix y assume "y \<in> set ys"
  then obtain k where "k < length ys" "y = ys ! k" by (auto simp add: in_set_conv_nth)
  with assms(1) show "ys ! 0 \<le> y" by (simp add: sorted_iff_nth_mono)
qed

lemma ecdf_points:
  assumes "means \<noteq> []" "i < length means"
  shows "ecdfData means ! (2 * i + 1) = \<lparr>xval = sort means ! i, yval = real i / real (length means)\<rparr>"
    and "ecdfData means ! (2 * i + 2) = \<lparr>xval = sort means ! i, yval = (real i + 1) / real (length means)\<rparr>"
  using concat_pairs_nth [OF assms(2),
      of "\<lambda>i. \<lparr>xval = sort means ! i, yval = real i / real (length means)\<rparr>"
         "\<lambda>i. \<lparr>xval = sort means ! i, yval = (real i + 1) / real (length means)\<rparr>"]
  by (simp_all add: ecdfData_eq [OF assms(1)])

lemma ecdf_length: "means \<noteq> [] \<Longrightarrow> length (ecdfData means) = 2 * length means + 1"
  by (simp add: ecdfData_eq length_concat_pairs)

lemma ecdf_first: "means \<noteq> [] \<Longrightarrow> ecdfData means ! 0 = \<lparr>xval = Min (set means), yval = 0\<rparr>"
  using sorted_first_Min [of "sort means"] by (simp add: ecdfData_eq sort_eq_Nil_iff)

lemma ecdf_rise:
  assumes "means \<noteq> []" "k < 2 * length means"
  shows "yval (ecdfData means ! (k + 1)) - yval (ecdfData means ! k)
           = (if odd k then 1 / real (length means) else 0)"
proof (cases "odd k")
  case True
  then obtain i where k: "k = 2 * i + 1" by (auto elim: oddE)
  with assms have i: "i < length means" by simp
  from ecdf_points [OF assms(1) i] k True show ?thesis
    by (simp add: diff_divide_distrib [symmetric])
next
  case False
  then obtain i where k: "k = 2 * i" by (auto elim: evenE)
  with assms have i: "i < length means" by simp
  show ?thesis
  proof (cases i)
    case 0
    with ecdf_points(1) [OF assms(1) i] ecdf_first [OF assms(1)] k False show ?thesis
      by simp
  next
    case (Suc j)
    with i have j: "j < length means" by simp
    from Suc k have "k = 2 * j + 2" by simp
    with ecdf_points(2) [OF assms(1) j] ecdf_points(1) [OF assms(1) i] k Suc False
    show ?thesis by simp
  qed
qed

lemma ecdf_sorted: 
  assumes "means \<noteq> []"
  shows "sorted (map yval (ecdfData means))"
proof -
  have "map yval (ecdfData means) ! k \<le> map yval (ecdfData means) ! Suc k"
    if "Suc k < length (map yval (ecdfData means))" for k
  proof -
    from that have k: "k < 2 * length means" by (simp add: ecdf_length [OF assms])
    have "0 \<le> yval (ecdfData means ! (k + 1)) - yval (ecdfData means ! k)"
      unfolding ecdf_rise [OF assms k] by simp
    with that show ?thesis by simp
  qed
  then show ?thesis by (simp only: sorted_iff_nth_Suc) blast
qed

text \<open>
  C4. For a nonempty sequence of \<open>m\<close> values the step sequence has \<open>2 m + 1\<close> points with
  non-decreasing y-values; it starts with y = 0 at the least value and ends at y = 1;
  at the \<open>i\<close>-th sorted value it steps from \<open>i / m\<close> to \<open>(i + 1) / m\<close>; and going along the
  sequence, y rises by \<open>1 / m\<close> at exactly these \<open>m\<close> steps and stays as it is between
  them.
\<close>

theorem ecdf_step_sequence:
  assumes "means \<noteq> []"
  shows "length (ecdfData means) = 2 * length means + 1
       \<and> sorted (map yval (ecdfData means))
       \<and> ecdfData means ! 0 = \<lparr>xval = Min (set means), yval = 0\<rparr>
       \<and> yval (last (ecdfData means)) = 1
       \<and> (\<forall>i<length means.
            ecdfData means ! (2 * i + 1)
              = \<lparr>xval = sort means ! i, yval = real i / real (length means)\<rparr>
          \<and> ecdfData means ! (2 * i + 2)
              = \<lparr>xval = sort means ! i, yval = (real i + 1) / real (length means)\<rparr>)
       \<and> (\<forall>k<2 * length means.
            yval (ecdfData means ! (k + 1)) - yval (ecdfData means ! k)
              = (if odd k then 1 / real (length means) else 0))"
proof -
  from assms obtain j where m: "length means = Suc j" by (cases means) auto
  have ne: "ecdfData means \<noteq> []"
    using ecdf_length [OF assms] by auto
  have "last (ecdfData means) = ecdfData means ! (2 * j + 2)"
    using ecdf_length [OF assms] m by (simp add: last_conv_nth [OF ne])
  also have "\<dots> = \<lparr>xval = sort means ! j, yval = (real j + 1) / real (length means)\<rparr>"
    by (rule ecdf_points(2) [OF assms]) (simp add: m)
  finally have "yval (last (ecdfData means)) = 1"
    by (simp add: m)
  then show ?thesis
    using ecdf_length [OF assms] ecdf_sorted [OF assms] ecdf_first [OF assms]
      ecdf_points [OF assms] ecdf_rise [OF assms]
    by (intro conjI allI impI) simp_all
qed

theorem ecdf_step_sequence_witness:
  "[3, 1, 2] \<noteq> ([] :: real list)
   \<and> length (ecdfData [3, 1, 2]) = 7
   \<and> ecdfData [3, 1, 2] ! 0 = \<lparr>xval = 1, yval = 0\<rparr>
   \<and> yval (last (ecdfData [3, 1, 2])) = 1
   \<and> ecdfData [3, 1, 2] ! 3 = \<lparr>xval = 2, yval = 1 / 3\<rparr>
   \<and> ecdfData [3, 1, 2] ! 4 = \<lparr>xval = 2, yval = 2 / 3\<rparr>"
proof -
  have s: "sort [3, 1, 2 :: real] = [1, 2, 3]" by simp
  have mn: "Min (set [3, 1, 2 :: real]) = 1" by simp
  from ecdf_step_sequence [of "[3, 1, 2]"] have
    "length (ecdfData [3, 1, 2]) = 7"
    "ecdfData [3, 1, 2] ! 0 = \<lparr>xval = 1, yval = 0\<rparr>"
    "yval (last (ecdfData [3, 1, 2])) = 1"
    "\<forall>i<3. ecdfData [3, 1, 2] ! (2 * i + 1) = \<lparr>xval = [1, 2, 3] ! i, yval = real i / 3\<rparr>
          \<and> ecdfData [3, 1, 2] ! (2 * i + 2) = \<lparr>xval = [1, 2, 3] ! i, yval = (real i + 1) / 3\<rparr>"
    by (simp_all add: s mn)
  then show ?thesis by (auto dest: spec [of _ 1])
qed

section \<open>Properties of the bivariate grid\<close>

lemma xgrid_eq: "xgrid = map (\<lambda>i. - 2 + real i * 0.05) [0..<81]"
  by (simp add: xgrid_def d3_range_def)

lemma ygrid_eq: "ygrid = map (\<lambda>i. - 2 + real i * 0.05) [0..<121]"
  by (simp add: ygrid_def d3_range_def)

lemma dx_eq: "dx = 1 / 20"
  by (simp add: dx_def xgrid_eq)

lemma dy_eq: "dy = 1 / 20"
  by (simp add: dy_def ygrid_eq)

lemma ln2_ge_half: "1 / 2 \<le> ln (2::real)"
proof -
  have "ln (1 / 2 :: real) \<le> 1 / 2 - 1"
    by (rule ln_le_minus_one) simp
  moreover have "ln (1 / 2 :: real) = - ln 2"
    by (simp add: ln_div)
  ultimately show ?thesis by simp
qed

lemma js_exp_nonneg: "0 \<le> js_exp v"
  by (simp add: js_exp_def)

lemma f_lower:
  assumes "- 2 \<le> x" "x \<le> 2" "- 2 \<le> y" "y \<le> 4"
  shows "- 376 \<le> f x y"
proof -
  have xx: "0 \<le> x * x" "x * x \<le> 4"
  proof -
    show "0 \<le> x * x" by simp
    have "0 \<le> (2 - x) * (2 + x)" using assms by (intro mult_nonneg_nonneg) simp_all
    then show "x * x \<le> 4" by (simp add: algebra_simps)
  qed
  define a where "a = y - x * x"
  have "- 6 \<le> a" "a \<le> 4" using xx assms unfolding a_def by linarith+
  then have "0 \<le> (6 - a) * (6 + a)" by (intro mult_nonneg_nonneg) simp_all
  then have a2: "a ^ 2 \<le> 36" by (simp add: algebra_simps power2_eq_square)
  have "0 \<le> (4 - y) * (4 + y)" using assms by (intro mult_nonneg_nonneg) simp_all
  then have y2: "y * y \<le> 16" by (simp add: algebra_simps)
  from a2 y2 show ?thesis by (simp add: f_def a_def [symmetric])
qed

lemma no_underflow_in_bounds:
  assumes "- 2 \<le> x" "x \<le> 2" "- 2 \<le> y" "y \<le> 4"
  shows "- (1075 * ln 2) < f x y"
  using f_lower [OF assms] ln2_ge_half by simp

lemma xgrid_bounds:
  assumes "i < length xgrid"
  shows "- 2 \<le> xgrid ! i" "xgrid ! i \<le> 2"
proof -
  from assms have "i \<le> 80" by (simp add: xgrid_eq)
  then have "real i \<le> 80" by simp
  with assms show "- 2 \<le> xgrid ! i" "xgrid ! i \<le> 2"
    by (simp_all add: xgrid_eq)
qed

lemma ygrid_bounds:
  assumes "j < length ygrid"
  shows "- 2 \<le> ygrid ! j" "ygrid ! j \<le> 4"
proof -
  from assms have "j \<le> 120" by (simp add: ygrid_eq)
  then have "real j \<le> 120" by simp
  with assms show "- 2 \<le> ygrid ! j" "ygrid ! j \<le> 4"
    by (simp_all add: ygrid_eq)
qed

lemma js_exp_on_grid:
  assumes "i < length xgrid" "j < length ygrid"
  shows "js_exp (f (xgrid ! i) (ygrid ! j)) = exp (f (xgrid ! i) (ygrid ! j))"
proof -
  have "- (1075 * ln 2) < f (xgrid ! i) (ygrid ! j)"
    by (rule no_underflow_in_bounds) (simp_all add: xgrid_bounds assms ygrid_bounds)
  then show ?thesis by (simp add: js_exp_def)
qed

lemma sum_loop_Inr:
  "(\<And>k. k \<in> set ks \<Longrightarrow> rd k = Inr (h k)) \<Longrightarrow> sum_loop rd ks s = Inr (s + sum_list (map h ks))"
  by (induction ks arbitrary: s) (simp_all add: add.assoc)

lemma collect_map_Inr:
  "(\<And>x. x \<in> set xs \<Longrightarrow> g x = Inr (h x)) \<Longrightarrow> collect (map g xs) = Inr (map h xs)"
  by (induction xs) simp_all

lemma collect_map_Inl:
  "xs \<noteq> [] \<Longrightarrow> (\<And>x. x \<in> set xs \<Longrightarrow> g x = Inl e) \<Longrightarrow> collect (map g xs) = Inl e"
  by (cases xs) simp_all

lemma foldl_plus: "foldl (\<lambda>a b. a + b) (a::real) vs = a + sum_list vs"
  by (induction vs arbitrary: a) (simp_all add: add.assoc)

lemma map_nth_fun: "map (\<lambda>i. g (xs ! i)) [0..<length xs] = map g xs"
proof -
  have "map (\<lambda>i. g (xs ! i)) [0..<length xs] = map g (map (\<lambda>i. xs ! i) [0..<length xs])"
    by (simp add: comp_def)
  then show ?thesis by (simp add: map_nth)
qed

lemma sum_list_swap:
  "(\<Sum>x\<leftarrow>xs. \<Sum>y\<leftarrow>ys. (g x y :: real)) = (\<Sum>y\<leftarrow>ys. \<Sum>x\<leftarrow>xs. g x y)"
  by (induction xs) (simp_all add: sum_list_addf)

lemma length_Z: "length Z = length ygrid"
  by (simp add: Z_def)

lemma at2_Z:
  assumes "r < length ygrid" "c < length xgrid"
  shows "at2 Z r c = Inr (js_exp (f (xgrid ! c) (rev ygrid ! r)))"
  using assms by (simp add: at2_def Z_def)

lemma at2_Z_inverted:
  assumes "j < length ygrid" "i < length xgrid"
  shows "at2 Z (length ygrid - 1 - j) i = Inr (js_exp (f (xgrid ! i) (ygrid ! j)))"
proof -
  from assms have r: "length ygrid - 1 - j < length ygrid" by simp
  from assms have "rev ygrid ! (length ygrid - 1 - j) = ygrid ! j"
    by (simp add: rev_nth)
  with at2_Z [OF r assms(2)] show ?thesis by simp
qed

lemma marginal_x_eq:
  "marginal_x = Inr (map (\<lambda>x. (\<Sum>y\<leftarrow>rev ygrid. js_exp (f x y)) * dy) xgrid)"
proof -
  have col: "sum_loop (\<lambda>j. at2 Z j i) [0..<length ygrid] 0
           = Inr (\<Sum>y\<leftarrow>rev ygrid. js_exp (f (xgrid ! i) y))" if "i < length xgrid" for i
  proof -
    have "sum_loop (\<lambda>j. at2 Z j i) [0..<length ygrid] 0
        = Inr (0 + (\<Sum>j\<leftarrow>[0..<length ygrid]. js_exp (f (xgrid ! i) (rev ygrid ! j))))"
      by (rule sum_loop_Inr) (simp add: at2_Z that)
    also have "(\<Sum>j\<leftarrow>[0..<length ygrid]. js_exp (f (xgrid ! i) (rev ygrid ! j)))
        = (\<Sum>y\<leftarrow>rev ygrid. js_exp (f (xgrid ! i) y))"
      using map_nth_fun [of "\<lambda>y. js_exp (f (xgrid ! i) y)" "rev ygrid"] by simp
    finally show ?thesis by simp
  qed
  have "marginal_x = Inr (map (\<lambda>i. (\<Sum>y\<leftarrow>rev ygrid. js_exp (f (xgrid ! i) y)) * dy) [0..<length xgrid])"
    unfolding marginal_x_def by (rule collect_map_Inr) (simp add: col)
  also have "map (\<lambda>i. (\<Sum>y\<leftarrow>rev ygrid. js_exp (f (xgrid ! i) y)) * dy) [0..<length xgrid]
      = map (\<lambda>x. (\<Sum>y\<leftarrow>rev ygrid. js_exp (f x y)) * dy) xgrid"
    by (rule map_nth_fun)
  finally show ?thesis .
qed

lemma marginal_y_eq:
  "marginal_y = Inr (map (\<lambda>y. (\<Sum>x\<leftarrow>xgrid. js_exp (f x y)) * dx) ygrid)"
proof -
  have row: "sum_loop (\<lambda>i. at2 Z (length ygrid - 1 - j) i) [0..<length xgrid] 0
           = Inr (\<Sum>x\<leftarrow>xgrid. js_exp (f x (ygrid ! j)))" if "j < length ygrid" for j
  proof -
    have "sum_loop (\<lambda>i. at2 Z (length ygrid - 1 - j) i) [0..<length xgrid] 0
        = Inr (0 + (\<Sum>i\<leftarrow>[0..<length xgrid]. js_exp (f (xgrid ! i) (ygrid ! j))))"
      by (rule sum_loop_Inr) (use at2_Z_inverted [OF that] in simp)
    also have "(\<Sum>i\<leftarrow>[0..<length xgrid]. js_exp (f (xgrid ! i) (ygrid ! j)))
        = (\<Sum>x\<leftarrow>xgrid. js_exp (f x (ygrid ! j)))"
      using map_nth_fun [of "\<lambda>x. js_exp (f x (ygrid ! j))" xgrid] by simp
    finally show ?thesis by simp
  qed
  have "marginal_y = Inr (map (\<lambda>j. (\<Sum>x\<leftarrow>xgrid. js_exp (f x (ygrid ! j))) * dx) [0..<length ygrid])"
    unfolding marginal_y_def by (rule collect_map_Inr) (use row in \<open>simp add: Let_def\<close>)
  also have "map (\<lambda>j. (\<Sum>x\<leftarrow>xgrid. js_exp (f x (ygrid ! j))) * dx) [0..<length ygrid]
      = map (\<lambda>y. (\<Sum>x\<leftarrow>xgrid. js_exp (f x y)) * dx) ygrid"
    by (rule map_nth_fun)
  finally show ?thesis .
qed

lemma marginal_y_entries:
  "\<exists>my. marginal_y = Inr my \<and> length my = length ygrid
     \<and> (\<forall>j<length ygrid.
          my ! j = dx * (\<Sum>i<length xgrid. js_exp (f (xgrid ! i) (ygrid ! j)))
        \<and> (\<forall>i<length xgrid.
             at2 Z (length ygrid - 1 - j) i = Inr (js_exp (f (xgrid ! i) (ygrid ! j)))))"
proof -
  let ?my = "map (\<lambda>y. (\<Sum>x\<leftarrow>xgrid. js_exp (f x y)) * dx) ygrid"
  have sum: "(\<Sum>x\<leftarrow>xgrid. js_exp (f x y)) = (\<Sum>i<length xgrid. js_exp (f (xgrid ! i) y))" for y
  proof -
    have "(\<Sum>x\<leftarrow>xgrid. js_exp (f x y)) = (\<Sum>i\<leftarrow>[0..<length xgrid]. js_exp (f (xgrid ! i) y))"
      using map_nth_fun [of "\<lambda>x. js_exp (f x y)" xgrid] by simp
    also have "\<dots> = (\<Sum>i<length xgrid. js_exp (f (xgrid ! i) y))"
      by (simp add: interv_sum_list_conv_sum_set_nat atLeast0LessThan)
    finally show ?thesis .
  qed
  have "my_j": "?my ! j = dx * (\<Sum>i<length xgrid. js_exp (f (xgrid ! i) (ygrid ! j)))"
    if "j < length ygrid" for j
    using that by (simp add: sum mult.commute)
  have "marginal_y = Inr ?my \<and> length ?my = length ygrid
     \<and> (\<forall>j<length ygrid.
          ?my ! j = dx * (\<Sum>i<length xgrid. js_exp (f (xgrid ! i) (ygrid ! j)))
        \<and> (\<forall>i<length xgrid.
             at2 Z (length ygrid - 1 - j) i = Inr (js_exp (f (xgrid ! i) (ygrid ! j)))))"
    using marginal_y_eq "my_j" at2_Z_inverted by (intro conjI allI impI) simp_all
  then show ?thesis by (rule exI)
qed

text \<open>
  C2. \<open>marginal_y\<close> is computed without fault and has one entry for each \<open>ygrid\<close>
  value; its entry \<open>j\<close> is \<open>dx\<close> times the sum over all \<open>i\<close> of
  \<open>exp(f(xgrid[i], ygrid[j]))\<close>, because the row \<open>length(ygrid) - 1 - j\<close> that the loop
  reads from the descending-y matrix \<open>Z\<close> holds the values of the ascending coordinate
  \<open>ygrid[j]\<close>. On the grid no exponent is low enough for \<open>Math.exp\<close> to underflow, so
  the values are those of the exponential function.
\<close>

theorem marginal_y_ascending:
  "\<exists>my. marginal_y = Inr my \<and> length my = length ygrid
     \<and> (\<forall>j<length ygrid.
          my ! j = dx * (\<Sum>i<length xgrid. exp (f (xgrid ! i) (ygrid ! j)))
        \<and> (\<forall>i<length xgrid.
             at2 Z (length ygrid - 1 - j) i = Inr (exp (f (xgrid ! i) (ygrid ! j)))))"
proof -
  from marginal_y_entries obtain my where my:
    "marginal_y = Inr my" "length my = length ygrid"
    "\<And>j. j < length ygrid \<Longrightarrow>
       my ! j = dx * (\<Sum>i<length xgrid. js_exp (f (xgrid ! i) (ygrid ! j)))"
    "\<And>i j. j < length ygrid \<Longrightarrow> i < length xgrid \<Longrightarrow>
       at2 Z (length ygrid - 1 - j) i = Inr (js_exp (f (xgrid ! i) (ygrid ! j)))"
    by blast
  have "my ! j = dx * (\<Sum>i<length xgrid. exp (f (xgrid ! i) (ygrid ! j)))"
    if "j < length ygrid" for j
    using my(3) [OF that] by (simp add: js_exp_on_grid that)
  moreover have "at2 Z (length ygrid - 1 - j) i = Inr (exp (f (xgrid ! i) (ygrid ! j)))"
    if "j < length ygrid" "i < length xgrid" for i j
    using my(4) [OF that] by (simp only: js_exp_on_grid [OF that(2) that(1)])
  ultimately have "marginal_y = Inr my \<and> length my = length ygrid
     \<and> (\<forall>j<length ygrid.
          my ! j = dx * (\<Sum>i<length xgrid. exp (f (xgrid ! i) (ygrid ! j)))
        \<and> (\<forall>i<length xgrid.
             at2 Z (length ygrid - 1 - j) i = Inr (exp (f (xgrid ! i) (ygrid ! j)))))"
    using my(1,2) by blast
  then show ?thesis by (rule exI)
qed

theorem marginal_y_ascending_witness:
  "0 < length ygrid
   \<and> (\<exists>my. marginal_y = Inr my
         \<and> my ! 0 = dx * (\<Sum>i<length xgrid. exp (f (xgrid ! i) (ygrid ! 0)))
         \<and> at2 Z (length ygrid - 1 - 0) 0 = Inr (exp (f (xgrid ! 0) (ygrid ! 0))))"
proof -
  have ly: "0 < length ygrid" by (simp add: ygrid_eq)
  have lx: "0 < length xgrid" by (simp add: xgrid_eq)
  from marginal_y_ascending obtain my where
    "marginal_y = Inr my" and
    "\<forall>j<length ygrid.
          my ! j = dx * (\<Sum>i<length xgrid. exp (f (xgrid ! i) (ygrid ! j)))
        \<and> (\<forall>i<length xgrid.
             at2 Z (length ygrid - 1 - j) i = Inr (exp (f (xgrid ! i) (ygrid ! j))))"
    by blast
  with ly lx show ?thesis by blast
qed

lemma riemann_sum_scaled:
  "riemann_sum (map (\<lambda>x. g x * k) xs) h = h * k * (\<Sum>x\<leftarrow>xs. g x)"
proof -
  have "riemann_sum (map (\<lambda>x. g x * k) xs) h = (\<Sum>x\<leftarrow>xs. (h * k) * g x)"
    by (simp add: riemann_sum_def comp_def mult_ac)
  also have "\<dots> = h * k * (\<Sum>x\<leftarrow>xs. g x)"
    by (rule sum_list_const_mult)
  finally show ?thesis .
qed

lemma sum_list_concat_rows: "sum_list (concat xss) = (\<Sum>xs\<leftarrow>xss. sum_list (xs :: real list))"
  by (induction xss) simp_all

lemma total_Z: "sum_list (concat Z) = (\<Sum>y\<leftarrow>ygrid. \<Sum>x\<leftarrow>xgrid. js_exp (f x y))"
proof -
  have "sum_list (concat Z) = (\<Sum>y\<leftarrow>rev ygrid. \<Sum>x\<leftarrow>xgrid. js_exp (f x y))"
    by (simp add: Z_def sum_list_concat_rows comp_def)
  also have "\<dots> = sum_list (rev (map (\<lambda>y. \<Sum>x\<leftarrow>xgrid. js_exp (f x y)) ygrid))"
    by (simp add: rev_map)
  finally show ?thesis by (simp only: sum_list_rev)
qed

text \<open>
  C7. Both marginals are computed without fault, and their Riemann sums agree with the
  total mass of the joint grid: the sum of \<open>marginal_x[i] * dx\<close>, the sum of
  \<open>marginal_y[j] * dy\<close> and \<open>dx * dy\<close> times the sum of all entries of \<open>Z\<close> are equal.
\<close>

theorem marginals_total_mass:
  "\<exists>mx my. marginal_x = Inr mx \<and> marginal_y = Inr my
      \<and> riemann_sum mx dx = dx * dy * sum_list (concat Z)
      \<and> riemann_sum my dy = dx * dy * sum_list (concat Z)
      \<and> riemann_sum mx dx = riemann_sum my dy"
proof -
  let ?mx = "map (\<lambda>x. (\<Sum>y\<leftarrow>rev ygrid. js_exp (f x y)) * dy) xgrid"
  let ?my = "map (\<lambda>y. (\<Sum>x\<leftarrow>xgrid. js_exp (f x y)) * dx) ygrid"
  have "(\<Sum>x\<leftarrow>xgrid. \<Sum>y\<leftarrow>rev ygrid. js_exp (f x y)) = (\<Sum>y\<leftarrow>rev ygrid. \<Sum>x\<leftarrow>xgrid. js_exp (f x y))"
    by (rule sum_list_swap)
  also have "\<dots> = sum_list (rev (map (\<lambda>y. \<Sum>x\<leftarrow>xgrid. js_exp (f x y)) ygrid))"
    by (simp add: rev_map)
  also have "\<dots> = sum_list (concat Z)"
    by (simp only: sum_list_rev total_Z)
  finally have x: "riemann_sum ?mx dx = dx * dy * sum_list (concat Z)"
    by (simp only: riemann_sum_scaled)
  have y: "riemann_sum ?my dy = dx * dy * sum_list (concat Z)"
    by (simp only: riemann_sum_scaled total_Z mult.commute [of dy dx])
  have "marginal_x = Inr ?mx \<and> marginal_y = Inr ?my
      \<and> riemann_sum ?mx dx = dx * dy * sum_list (concat Z)
      \<and> riemann_sum ?my dy = dx * dy * sum_list (concat Z)
      \<and> riemann_sum ?mx dx = riemann_sum ?my dy"
    using marginal_x_eq marginal_y_eq x y by simp
  then show ?thesis by blast
qed

subsection \<open>The conditionals\<close>

lemma normalize_ok:
  assumes "0 < sum_list vs" "0 < h"
  shows "collect (map (\<lambda>v. js_div v (foldl (\<lambda>a b. a + b) 0 vs * h)) vs)
           = Inr (map (\<lambda>v. v / (sum_list vs * h)) vs)"
    and "riemann_sum (map (\<lambda>v. v / (sum_list vs * h)) vs) h = 1"
proof -
  from assms have nz: "sum_list vs * h \<noteq> 0" by simp
  show "collect (map (\<lambda>v. js_div v (foldl (\<lambda>a b. a + b) 0 vs * h)) vs)
           = Inr (map (\<lambda>v. v / (sum_list vs * h)) vs)"
    by (rule collect_map_Inr) (use nz in \<open>simp add: js_div_def foldl_plus\<close>)
  have "riemann_sum (map (\<lambda>v. v / (sum_list vs * h)) vs) h
      = (\<Sum>v\<leftarrow>vs. v * (h / (sum_list vs * h)))"
    by (simp add: riemann_sum_def comp_def)
  also have "\<dots> = sum_list vs * (h / (sum_list vs * h))"
    using sum_list_mult_const [of "\<lambda>v. v" "h / (sum_list vs * h)" vs] by simp
  also have "\<dots> = 1"
    using assms by simp
  finally show "riemann_sum (map (\<lambda>v. v / (sum_list vs * h)) vs) h = 1" .
qed

lemma member_le_sum_list_real:
  "(\<And>v. v \<in> set vs \<Longrightarrow> 0 \<le> (v::real)) \<Longrightarrow> w \<in> set vs \<Longrightarrow> w \<le> sum_list vs"
proof (induction vs)
  case Nil
  then show ?case by simp
next
  case (Cons a vs)
  have a: "0 \<le> a" and rest: "0 \<le> sum_list vs"
    using Cons.prems(1) by (simp_all add: sum_list_nonneg)
  show ?case
  proof (cases "w = a")
    case True
    with rest show ?thesis by simp
  next
    case False
    with Cons.prems(2) have "w \<in> set vs" by simp
    with Cons.IH Cons.prems(1) have "w \<le> sum_list vs" by simp
    with a show ?thesis by simp
  qed
qed

text \<open>Bounds of \<open>ln 2\<close>, from \<open>1 / (a + 1) \<le> ln (a + 1) - ln a \<le> 1 / a\<close> for \<open>a = 8, ..., 15\<close>.\<close>

lemma ln_step:
  assumes "0 < (a::real)"
  shows "1 / (a + 1) \<le> ln (a + 1) - ln a" "ln (a + 1) - ln a \<le> 1 / a"
proof -
  have "ln (a / (a + 1)) \<le> a / (a + 1) - 1"
    using assms by (intro ln_le_minus_one) simp
  moreover have "ln (a / (a + 1)) = ln a - ln (a + 1)"
    using assms by (simp add: ln_div)
  moreover have "a / (a + 1) - 1 = - (1 / (a + 1))"
    using assms by (simp add: field_simps)
  ultimately show "1 / (a + 1) \<le> ln (a + 1) - ln a" by linarith
  have "ln ((a + 1) / a) \<le> (a + 1) / a - 1"
    using assms by (intro ln_le_minus_one) simp
  moreover have "ln ((a + 1) / a) = ln (a + 1) - ln a"
    using assms by (simp add: ln_div)
  moreover have "(a + 1) / a - 1 = 1 / a"
    using assms by (simp add: field_simps)
  ultimately show "ln (a + 1) - ln a \<le> 1 / a" by linarith
qed

lemma ln2_bounds: "33 / 50 \<le> ln (2::real)" "ln (2::real) \<le> 73 / 100"
proof -
  have "ln (16::real) = ln (2 ^ 4)" "ln (8::real) = ln (2 ^ 3)" by simp_all
  then have l: "ln (16::real) - ln 8 = ln 2" by (simp only: ln_realpow; simp)
  note s = ln_step [of 8] ln_step [of 9] ln_step [of 10] ln_step [of 11]
    ln_step [of 12] ln_step [of 13] ln_step [of 14] ln_step [of 15]
  from s l show "33 / 50 \<le> ln (2::real)" by simp
  from s l show "ln (2::real) \<le> 73 / 100" by simp
qed

lemma js_exp_far: "v \<le> - 785 \<Longrightarrow> js_exp v = 0"
  using ln2_bounds(2) by (simp add: js_exp_def)

lemma js_exp_safe: "- 700 \<le> v \<Longrightarrow> js_exp v = exp v"
  using ln2_bounds(1) by (simp add: js_exp_def)

text \<open>
  A sum of values of which one has an exponent of at least \<open>-700\<close> is far enough above
  the least binary64 numbers for its product with the step \<open>1 / 20\<close> not to underflow.
\<close>

lemma product_safe:
  assumes "exp (- 700) \<le> s"
  shows "js_mul s (1 / 20) = s * (1 / 20)" "0 < js_mul s (1 / 20)"
proof -
  have "ln (5 / 4 :: real) = ln 20 - ln 16"
    using ln_div [of "20::real" 16] by simp
  moreover have "ln (16::real) = 4 * ln 2"
  proof -
    have "ln (16::real) = ln (2 ^ 4)" by simp
    then show ?thesis by (simp only: ln_realpow; simp)
  qed
  moreover have "ln (5 / 4 :: real) \<le> 5 / 4 - 1" by (rule ln_le_minus_one) simp
  ultimately have l20: "ln (20::real) \<le> 4 * ln 2 + 1 / 4" by simp
  have "ln (1 / 2 ^ n :: real) = - (real n * ln 2)" for n :: nat
    by (simp add: ln_div ln_realpow)
  from this [of 1075] have "ln (1 / 2 ^ 1075 :: real) = - (1075 * ln 2)"
    by simp
  also have "\<dots> < - 700 - ln 20"
    using l20 ln2_bounds(1) by simp
  also have "\<dots> = ln (exp (- 700) * (1 / 20))"
    by (simp add: ln_mult ln_div)
  finally have "(1 / 2 ^ 1075 :: real) < exp (- 700) * (1 / 20)"
    by (subst (asm) ln_less_cancel_iff) simp_all
  also have "\<dots> \<le> s * (1 / 20)" using assms by simp
  finally have gt: "1 / 2 ^ 1075 < s * (1 / 20)" .
  then have "\<not> \<bar>s * (1 / 20)\<bar> \<le> 1 / 2 ^ 1075" by simp
  then show "js_mul s (1 / 20) = s * (1 / 20)" by (simp only: js_mul_def if_False)
  moreover have "(0::real) < 1 / 2 ^ 1075" by simp
  ultimately show "0 < js_mul s (1 / 20)" using gt by linarith
qed

lemma js_mul_nonneg: "0 \<le> a \<Longrightarrow> 0 \<le> b \<Longrightarrow> 0 \<le> js_mul a b"
  by (simp add: js_mul_def)

lemma js_mul_pos: "0 < js_mul a b \<Longrightarrow> js_mul a b = a * b"
  by (simp add: js_mul_def split: if_splits)

lemma sum_x_eq: "sum_x y0 = js_mul (sum_list (conditional_x_given_y y0)) dx"
  by (simp add: sum_x_def foldl_plus)

lemma sum_y_eq: "sum_y x0 = js_mul (sum_list (conditional_y_given_x x0)) dy"
  by (simp add: sum_y_def foldl_plus)

lemma sum_x_nonneg: "0 \<le> sum_x y0"
  unfolding sum_x_eq
  by (rule js_mul_nonneg)
     (auto intro!: sum_list_nonneg simp add: conditional_x_given_y_def js_exp_nonneg dx_eq)

lemma sum_x_safe:
  assumes "x \<in> set xgrid" "- 700 \<le> f x y0"
  shows "0 < sum_x y0"
proof -
  have "js_exp (f x y0) \<le> sum_list (conditional_x_given_y y0)"
    by (rule member_le_sum_list_real)
       (use assms(1) in \<open>auto simp add: conditional_x_given_y_def js_exp_nonneg\<close>)
  moreover have "exp (- 700) \<le> js_exp (f x y0)"
    using assms(2) by (simp add: js_exp_safe)
  ultimately have "exp (- 700) \<le> sum_list (conditional_x_given_y y0)" by linarith
  from product_safe(2) [OF this] show ?thesis by (simp add: sum_x_eq dx_eq)
qed

lemma sum_y_safe:
  assumes "y \<in> set ygrid" "- 700 \<le> f x0 y"
  shows "0 < sum_y x0"
proof -
  have "js_exp (f x0 y) \<le> sum_list (conditional_y_given_x x0)"
    by (rule member_le_sum_list_real)
       (use assms(1) in \<open>auto simp add: conditional_y_given_x_def js_exp_nonneg\<close>)
  moreover have "exp (- 700) \<le> js_exp (f x0 y)"
    using assms(2) by (simp add: js_exp_safe)
  ultimately have "exp (- 700) \<le> sum_list (conditional_y_given_x x0)" by linarith
  from product_safe(2) [OF this] show ?thesis by (simp add: sum_y_eq dy_eq)
qed

lemma sum_x_far:
  assumes "\<And>x. x \<in> set xgrid \<Longrightarrow> f x y0 \<le> - 785"
  shows "sum_x y0 = 0"
proof -
  have "conditional_x_given_y y0 = map (\<lambda>x. 0) xgrid"
    by (simp add: conditional_x_given_y_def js_exp_far assms)
  then show ?thesis by (simp add: sum_x_eq js_mul_def)
qed

lemma sum_y_far:
  assumes "\<And>y. y \<in> set ygrid \<Longrightarrow> f x0 y \<le> - 785"
  shows "sum_y x0 = 0"
proof -
  have "conditional_y_given_x x0 = map (\<lambda>y. 0) ygrid"
    by (simp add: conditional_y_given_x_def js_exp_far assms)
  then show ?thesis by (simp add: sum_y_eq js_mul_def)
qed

lemma normalized_x_ok:
  assumes "0 < sum_x y0"
  shows "\<exists>nx. normalized_x_given_y y0 = Inr nx \<and> length nx = length xgrid
              \<and> riemann_sum nx dx = 1"
proof -
  have h: "0 < dx" by (simp add: dx_eq)
  from assms have sx: "sum_x y0 = foldl (\<lambda>a b. a + b) 0 (conditional_x_given_y y0) * dx"
    unfolding sum_x_def by (rule js_mul_pos)
  with assms h have pos: "0 < sum_list (conditional_x_given_y y0)"
    by (simp add: foldl_plus zero_less_mult_iff)
  let ?nx = "map (\<lambda>v. v / (sum_list (conditional_x_given_y y0) * dx)) (conditional_x_given_y y0)"
  have "normalized_x_given_y y0 = Inr ?nx"
    unfolding normalized_x_given_y_def sx by (rule normalize_ok(1) [OF pos h])
  moreover have "riemann_sum ?nx dx = 1"
    by (rule normalize_ok(2) [OF pos h])
  moreover have "length ?nx = length xgrid"
    by (simp add: conditional_x_given_y_def)
  ultimately show ?thesis by blast
qed

lemma normalized_y_ok:
  assumes "0 < sum_y x0"
  shows "\<exists>ny. normalized_y_given_x x0 = Inr ny \<and> length ny = length ygrid
              \<and> riemann_sum ny dy = 1"
proof -
  have h: "0 < dy" by (simp add: dy_eq)
  from assms have sy: "sum_y x0 = foldl (\<lambda>a b. a + b) 0 (conditional_y_given_x x0) * dy"
    unfolding sum_y_def by (rule js_mul_pos)
  with assms h have pos: "0 < sum_list (conditional_y_given_x x0)"
    by (simp add: foldl_plus zero_less_mult_iff)
  let ?ny = "map (\<lambda>v. v / (sum_list (conditional_y_given_x x0) * dy)) (conditional_y_given_x x0)"
  have "normalized_y_given_x x0 = Inr ?ny"
    unfolding normalized_y_given_x_def sy by (rule normalize_ok(1) [OF pos h])
  moreover have "riemann_sum ?ny dy = 1"
    by (rule normalize_ok(2) [OF pos h])
  moreover have "length ?ny = length ygrid"
    by (simp add: conditional_y_given_x_def)
  ultimately show ?thesis by blast
qed

lemma normalized_x_fault:
  assumes "sum_x y0 = 0"
  shows "normalized_x_given_y y0 = Inl NonFinite"
  unfolding normalized_x_given_y_def
  by (rule collect_map_Inl)
     (simp_all add: conditional_x_given_y_def xgrid_eq assms js_div_def)

lemma normalized_y_fault:
  assumes "sum_y x0 = 0"
  shows "normalized_y_given_x x0 = Inl NonFinite"
  unfolding normalized_y_given_x_def
  by (rule collect_map_Inl)
     (simp_all add: conditional_y_given_x_def ygrid_eq assms js_div_def)

lemma conditionals_ok:
  assumes "0 < sum_x y0" "0 < sum_y x0"
  shows "\<exists>c. getConditionalDistributions x0 y0 = Inr c
            \<and> length (x_given_y c) = length xgrid \<and> length (y_given_x c) = length ygrid
            \<and> riemann_sum (x_given_y c) dx = 1 \<and> riemann_sum (y_given_x c) dy = 1"
proof -
  from normalized_x_ok [OF assms(1)] obtain nx where
    nx: "normalized_x_given_y y0 = Inr nx" "length nx = length xgrid" "riemann_sum nx dx = 1"
    by blast
  from normalized_y_ok [OF assms(2)] obtain ny where
    ny: "normalized_y_given_x x0 = Inr ny" "length ny = length ygrid" "riemann_sum ny dy = 1"
    by blast
  have "getConditionalDistributions x0 y0 = Inr \<lparr>x_given_y = nx, y_given_x = ny\<rparr>"
    by (simp add: getConditionalDistributions_def nx(1) ny(1))
  with nx ny show ?thesis by simp
qed

lemma conditionals_fault:
  assumes "sum_x y0 = 0 \<or> sum_y x0 = 0"
  shows "getConditionalDistributions x0 y0 = Inl NonFinite"
proof (cases "sum_x y0 = 0")
  case True
  then show ?thesis
    by (simp add: getConditionalDistributions_def normalized_x_fault)
next
  case False
  with assms have "sum_y x0 = 0" by simp
  then have "normalized_y_given_x x0 = Inl NonFinite"
    by (rule normalized_y_fault)
  moreover from False sum_x_nonneg [of y0] have "0 < sum_x y0" by simp
  from normalized_x_ok [OF this] obtain nx where "normalized_x_given_y y0 = Inr nx"
    by blast
  ultimately show ?thesis
    by (simp add: getConditionalDistributions_def)
qed

lemma xgrid_first: "xgrid ! 0 = - 2" "xgrid ! 0 \<in> set xgrid"
  by (simp_all add: xgrid_eq)

lemma ygrid_first: "ygrid ! 0 = - 2" "ygrid ! 0 \<in> set ygrid"
  by (simp_all add: ygrid_eq)

text \<open>
  C3. For a query point inside the grid bounds, \<open>getConditionalDistributions\<close> returns two
  vectors, one entry for each grid value, and each integrates to 1 by its Riemann sum:
  the sum of \<open>x_given_y[i] * dx\<close> is 1 and the sum of \<open>y_given_x[j] * dy\<close> is 1.
\<close>

theorem conditionals_integrate_to_one:
  assumes "- 2 \<le> x0" "x0 \<le> 2" "- 2 \<le> y0" "y0 \<le> 4"
  shows "\<exists>c. getConditionalDistributions x0 y0 = Inr c
            \<and> length (x_given_y c) = length xgrid \<and> length (y_given_x c) = length ygrid
            \<and> riemann_sum (x_given_y c) dx = 1 \<and> riemann_sum (y_given_x c) dy = 1"
proof (rule conditionals_ok)
  have "- 376 \<le> f (xgrid ! 0) y0"
    using assms by (intro f_lower) (simp_all add: xgrid_first)
  then have "- 700 \<le> f (xgrid ! 0) y0" by simp
  with xgrid_first(2) show "0 < sum_x y0" by (rule sum_x_safe)
  have "- 376 \<le> f x0 (ygrid ! 0)"
    using assms by (intro f_lower) (simp_all add: ygrid_first)
  then have "- 700 \<le> f x0 (ygrid ! 0)" by simp
  with ygrid_first(2) show "0 < sum_y x0" by (rule sum_y_safe)
qed

theorem conditionals_integrate_to_one_witness:
  "- 2 \<le> (0::real) \<and> (0::real) \<le> 2 \<and> (0::real) \<le> 4
   \<and> (\<exists>c. getConditionalDistributions 0 0 = Inr c
          \<and> riemann_sum (x_given_y c) dx = 1 \<and> riemann_sum (y_given_x c) dy = 1)"
proof -
  from conditionals_integrate_to_one [of 0 0] obtain c where
    "getConditionalDistributions 0 0 = Inr c"
    "riemann_sum (x_given_y c) dx = 1" "riemann_sum (y_given_x c) dy = 1"
    by auto
  then show ?thesis by auto
qed

text \<open>
  C10, as the code has it. For every query point the evaluated values are not negative.
  When on each axis some evaluated exponent is at least \<open>-700\<close>, both normalizing sums
  are positive, no division has a zero divisor and both returned vectors have Riemann
  sum 1; this covers the points inside the grid bounds and points outside them too,
  \<open>(3, 5)\<close> for one. When on one axis every exponent is at most \<open>-785\<close>, every value on
  it underflows to 0, its normalizing sum is 0 and the entries returned are not numbers.
  Between the two bounds the values and the product are among the least binary64
  numbers, where the result depends on their rounding; nothing is stated there.
\<close>

theorem conditionals_defined_away_from_underflow:
  "(\<forall>x\<in>set xgrid. 0 \<le> js_exp (f x y0)) \<and> (\<forall>y\<in>set ygrid. 0 \<le> js_exp (f x0 y))
   \<and> ((\<exists>x\<in>set xgrid. - 700 \<le> f x y0) \<and> (\<exists>y\<in>set ygrid. - 700 \<le> f x0 y)
        \<longrightarrow> 0 < sum_x y0 \<and> 0 < sum_y x0
          \<and> (\<exists>c. getConditionalDistributions x0 y0 = Inr c
                \<and> riemann_sum (x_given_y c) dx = 1 \<and> riemann_sum (y_given_x c) dy = 1))
   \<and> ((\<forall>x\<in>set xgrid. f x y0 \<le> - 785) \<or> (\<forall>y\<in>set ygrid. f x0 y \<le> - 785)
        \<longrightarrow> getConditionalDistributions x0 y0 = Inl NonFinite)"
proof (intro conjI impI)
  show "\<forall>x\<in>set xgrid. 0 \<le> js_exp (f x y0)" "\<forall>y\<in>set ygrid. 0 \<le> js_exp (f x0 y)"
    by (simp_all add: js_exp_nonneg)
next
  assume safe: "(\<exists>x\<in>set xgrid. - 700 \<le> f x y0) \<and> (\<exists>y\<in>set ygrid. - 700 \<le> f x0 y)"
  from safe show sx: "0 < sum_x y0" by (auto intro: sum_x_safe)
  from safe show sy: "0 < sum_y x0" by (auto intro: sum_y_safe)
  from conditionals_ok [OF sx sy]
  show "\<exists>c. getConditionalDistributions x0 y0 = Inr c
           \<and> riemann_sum (x_given_y c) dx = 1 \<and> riemann_sum (y_given_x c) dy = 1"
    by blast
next
  assume "(\<forall>x\<in>set xgrid. f x y0 \<le> - 785) \<or> (\<forall>y\<in>set ygrid. f x0 y \<le> - 785)"
  then have "sum_x y0 = 0 \<or> sum_y x0 = 0"
    using sum_x_far [of y0] sum_y_far [of x0] by blast
  then show "getConditionalDistributions x0 y0 = Inl NonFinite"
    by (rule conditionals_fault)
qed

lemma in_xgrid: "k \<le> 80 \<Longrightarrow> - 2 + real k / 20 \<in> set xgrid"
  by (auto simp add: xgrid_eq image_iff intro!: bexI [of _ k])

lemma in_ygrid: "k \<le> 120 \<Longrightarrow> - 2 + real k / 20 \<in> set ygrid"
  by (auto simp add: ygrid_eq image_iff intro!: bexI [of _ k])

lemma f_far: "785 \<le> y * y \<Longrightarrow> f x y \<le> - 785"
proof -
  assume "785 \<le> y * y"
  moreover have "0 \<le> 10 * (y - x * x) ^ 2" by simp
  ultimately show "f x y \<le> - 785" unfolding f_def by linarith
qed

theorem conditionals_defined_away_from_underflow_witness:
  "0 < sum_x 5 \<and> 0 < sum_y 3
   \<and> (\<exists>c. getConditionalDistributions 3 5 = Inr c
         \<and> riemann_sum (x_given_y c) dx = 1 \<and> riemann_sum (y_given_x c) dy = 1)
   \<and> getConditionalDistributions 0 50 = Inl NonFinite"
proof -
  have "(2::real) \<in> set xgrid" using in_xgrid [of 80] by simp
  moreover have "- 700 \<le> f 2 5" by (simp add: f_def)
  ultimately have x: "\<exists>x\<in>set xgrid. - 700 \<le> f x 5" by blast
  have "(4::real) \<in> set ygrid" using in_ygrid [of 120] by simp
  moreover have "- 700 \<le> f 3 4" by (simp add: f_def)
  ultimately have y: "\<exists>y\<in>set ygrid. - 700 \<le> f 3 y" by blast
  have far: "\<forall>x\<in>set xgrid. f x 50 \<le> - 785" by (simp add: f_far)
  from conditionals_defined_away_from_underflow [of 5 3] x y
  have "0 < sum_x 5 \<and> 0 < sum_y 3
     \<and> (\<exists>c. getConditionalDistributions 3 5 = Inr c
           \<and> riemann_sum (x_given_y c) dx = 1 \<and> riemann_sum (y_given_x c) dy = 1)"
    by blast
  moreover from conditionals_defined_away_from_underflow [of 50 0] far
  have "getConditionalDistributions 0 50 = Inl NonFinite"
    by blast
  ultimately show ?thesis by blast
qed

text \<open>
  C10 as claimed fails far from the grid: at \<open>(0, 40)\<close> every exponent \<open>f(x, 40)\<close> is below
  \<open>-1600\<close>, every value underflows to 0 (the one at the grid value \<open>x = 0\<close> for one),
  \<open>sum_x\<close> is 0 and the normalization divides 0 by 0.
\<close>

theorem conditionals_far_point_underflow:
  "xgrid ! 40 = 0 \<and> js_exp (f (xgrid ! 40) 40) = 0 \<and> sum_x 40 = 0
   \<and> getConditionalDistributions 0 40 = Inl NonFinite"
proof -
  have far: "f x 40 \<le> - 785" for x by (rule f_far) simp
  have s0: "sum_x 40 = 0" by (rule sum_x_far) (rule far)
  then have "getConditionalDistributions 0 40 = Inl NonFinite"
    by (intro conditionals_fault) simp
  moreover have "xgrid ! 40 = 0" by (simp add: xgrid_eq)
  ultimately show ?thesis using s0 by (simp add: js_exp_far far)
qed

section \<open>The moments of the registered distributions\<close>

text \<open>
  A function that is continuous on an interval and has derivative 0 in its interior but
  for finitely many points takes the same value at both ends; so two antiderivatives of
  one function give the same integral.
\<close>

lemma const_except_finite:
  assumes "finite S"
  shows "a \<le> b \<Longrightarrow> continuous_on {a..b} H
      \<Longrightarrow> (\<And>x. a < x \<Longrightarrow> x < b \<Longrightarrow> x \<notin> S \<Longrightarrow> (H has_real_derivative 0) (at x))
      \<Longrightarrow> H b = H a"
  using assms
proof (induction S arbitrary: a b rule: finite_induct)
  case empty
  show ?case
  proof (cases "a < b")
    case True
    then show ?thesis
      using empty by (intro DERIV_isconst_end) auto
  next
    case False
    with empty(1) show ?thesis by simp
  qed
next
  case (insert c S)
  show ?case
  proof (cases "a < c \<and> c < b")
    case True
    have "H c = H a"
    proof (rule insert.IH)
      show "a \<le> c" using True by simp
      show "continuous_on {a..c} H"
        using insert.prems(2) by (rule continuous_on_subset) (use True in auto)
      show "(H has_real_derivative 0) (at x)" if "a < x" "x < c" "x \<notin> S" for x
        using that True by (intro insert.prems(3)) auto
    qed
    moreover have "H b = H c"
    proof (rule insert.IH)
      show "c \<le> b" using True by simp
      show "continuous_on {c..b} H"
        using insert.prems(2) by (rule continuous_on_subset) (use True in auto)
      show "(H has_real_derivative 0) (at x)" if "c < x" "x < b" "x \<notin> S" for x
        using that True by (intro insert.prems(3)) auto
    qed
    ultimately show ?thesis by simp
  next
    case False
    show ?thesis
    proof (rule insert.IH)
      show "a \<le> b" by (rule insert.prems(1))
      show "continuous_on {a..b} H" by (rule insert.prems(2))
      show "(H has_real_derivative 0) (at x)" if "a < x" "x < b" "x \<notin> S" for x
        using that False by (intro insert.prems(3)) auto
    qed
  qed
qed

lemma integral01_unique:
  assumes "integral01 g I" "integral01 g J"
  shows "I = J"
proof -
  from assms(1) obtain G S where G: "finite S" "continuous_on {0..1} G"
    "\<And>u. 0 < u \<Longrightarrow> u < 1 \<Longrightarrow> u \<notin> S \<Longrightarrow> (G has_real_derivative g u) (at u)" "G 1 - G 0 = I"
    unfolding integral01_def by blast
  from assms(2) obtain K T where K: "finite T" "continuous_on {0..1} K"
    "\<And>u. 0 < u \<Longrightarrow> u < 1 \<Longrightarrow> u \<notin> T \<Longrightarrow> (K has_real_derivative g u) (at u)" "K 1 - K 0 = J"
    unfolding integral01_def by blast
  have fin: "finite (S \<union> T)" using G(1) K(1) by simp
  have cont: "continuous_on {0..1} (\<lambda>u. G u - K u)"
    using G(2) K(2) by (intro continuous_intros)
  have deriv: "((\<lambda>u. G u - K u) has_real_derivative 0) (at x)"
    if "0 < x" "x < 1" "x \<notin> S \<union> T" for x
    using DERIV_diff [OF G(3) [of x] K(3) [of x]] that by simp
  have "G 1 - K 1 = G 0 - K 0"
    using const_except_finite [where S = "S \<union> T" and a = 0 and b = 1
        and H = "\<lambda>u. G u - K u", OF fin _ cont deriv]
    by simp
  with G(4) K(4) show ?thesis by simp
qed

lemma integral01_I:
  assumes "finite S" "continuous_on {0..1} G"
    "\<And>u. 0 < u \<Longrightarrow> u < 1 \<Longrightarrow> u \<notin> S \<Longrightarrow> (G has_real_derivative g u) (at u)"
    "G 1 - G 0 = I"
  shows "integral01 g I"
  unfolding integral01_def using assms by blast

lemma integral01_step:
  fixes a b c0 c1 c2 :: real
  assumes "0 \<le> a" "a \<le> b" "b \<le> 1"
  shows "integral01 (\<lambda>u. if u < a then c0 else if u < b then c1 else c2)
           (a * c0 + (b - a) * c1 + (1 - b) * c2)"
proof (rule integral01_I [of "{a, b}"
      "\<lambda>u. c0 * min u a + c1 * (min (max u a) b - a) + c2 * (max u b - b)"])
  show "finite {a, b}" by simp
  show "continuous_on {0..1} (\<lambda>u. c0 * min u a + c1 * (min (max u a) b - a) + c2 * (max u b - b))"
    by (intro continuous_intros)
  show "c0 * min 1 a + c1 * (min (max 1 a) b - a) + c2 * (max 1 b - b)
      - (c0 * min 0 a + c1 * (min (max 0 a) b - a) + c2 * (max 0 b - b))
      = a * c0 + (b - a) * c1 + (1 - b) * c2"
  proof -
    have "min 1 a = a" "max 1 a = 1" "min 1 b = b" "max 1 b = 1"
         "min 0 a = 0" "max 0 a = a" "min a b = a" "max 0 b = b"
      using assms by simp_all
    then show ?thesis by (simp add: algebra_simps)
  qed
  fix u :: real
  assume u: "0 < u" "u < 1" "u \<notin> {a, b}"
  let ?G = "\<lambda>u. c0 * min u a + c1 * (min (max u a) b - a) + c2 * (max u b - b)"
  consider "u < a" | "a < u" "u < b" | "b < u" using u by fastforce
  then show "(?G has_real_derivative (if u < a then c0 else if u < b then c1 else c2)) (at u)"
  proof cases
    case 1
    have "((\<lambda>u. c0 * u) has_real_derivative c0) (at u)"
      by (auto intro!: derivative_eq_intros)
    then have "(?G has_real_derivative c0) (at u)"
    proof (rule has_field_derivative_transform_within_open [of _ _ _ "{..<a}"])
      show "open {..<a}" by simp
      show "u \<in> {..<a}" using 1 by simp
      show "c0 * x = ?G x" if "x \<in> {..<a}" for x
        using that assms by (simp add: min_def max_def)
    qed
    with 1 show ?thesis by simp
  next
    case 2
    have "((\<lambda>u. c0 * a + c1 * (u - a)) has_real_derivative c1) (at u)"
      by (auto intro!: derivative_eq_intros)
    then have "(?G has_real_derivative c1) (at u)"
    proof (rule has_field_derivative_transform_within_open [of _ _ _ "{a<..<b}"])
      show "open {a<..<b}" by simp
      show "u \<in> {a<..<b}" using 2 by simp
      show "c0 * a + c1 * (x - a) = ?G x" if "x \<in> {a<..<b}" for x
        using that assms by (simp add: min_def max_def)
    qed
    with 2 show ?thesis by simp
  next
    case 3
    have "((\<lambda>u. c0 * a + c1 * (b - a) + c2 * (u - b)) has_real_derivative c2) (at u)"
      by (auto intro!: derivative_eq_intros)
    then have "(?G has_real_derivative c2) (at u)"
    proof (rule has_field_derivative_transform_within_open [of _ _ _ "{b<..}"])
      show "open {b<..}" by simp
      show "u \<in> {b<..}" using 3 by simp
      show "c0 * a + c1 * (b - a) + c2 * (x - b) = ?G x" if "x \<in> {b<..}" for x
        using that assms by (simp add: min_def max_def)
    qed
    with 3 assms show ?thesis by simp
  qed
qed

lemma integral01_identity: "integral01 (\<lambda>u. u) (1 / 2)"
proof (rule integral01_I [of "{}" "\<lambda>u. u ^ 2 / 2"])
  show "continuous_on {0..1} (\<lambda>u::real. u ^ 2 / 2)" by (auto intro!: continuous_intros)
  show "((\<lambda>u. u ^ 2 / 2) has_real_derivative u) (at u)" for u :: real
    by (auto intro!: derivative_eq_intros)
qed simp_all

lemma integral01_square: "integral01 (\<lambda>u. u ^ 2) (1 / 3)"
proof (rule integral01_I [of "{}" "\<lambda>u. u ^ 3 / 3"])
  show "continuous_on {0..1} (\<lambda>u::real. u ^ 3 / 3)" by (auto intro!: continuous_intros)
  show "((\<lambda>u. u ^ 3 / 3) has_real_derivative u ^ 2) (at u)" for u :: real
    by (auto intro!: derivative_eq_intros)
qed simp_all


lemma ln_pow_over_x_tendsto: "((\<lambda>x::real. (ln (inverse x)) ^ k / inverse x) \<longlongrightarrow> 0) (at_right 0)"
proof -
  have 1: "((\<lambda>t::real. (ln t) ^ k / exp (ln t)) \<longlongrightarrow> 0) at_top"
    by (rule filterlim_compose [OF tendsto_power_div_exp_0 ln_at_top])
  have "\<forall>\<^sub>F t in at_top. (ln t) ^ k / exp (ln t) = (ln t) ^ k / (t::real)"
    using eventually_gt_at_top [of "0::real"] by eventually_elim simp
  from tendsto_cong [OF this] 1 have 2: "((\<lambda>t::real. (ln t) ^ k / t) \<longlongrightarrow> 0) at_top"
    by simp
  show ?thesis
    by (rule filterlim_compose [OF 2 filterlim_inverse_at_top_right])
qed

lemma x_ln_tendsto: "((\<lambda>x::real. x * ln x) \<longlongrightarrow> 0) (at_right 0)"
proof -
  have "((\<lambda>x::real. - ((ln (inverse x)) ^ 1 / inverse x)) \<longlongrightarrow> - 0) (at_right 0)"
    by (intro tendsto_minus ln_pow_over_x_tendsto)
  then have lim: "((\<lambda>x::real. - ((ln (inverse x)) ^ 1 / inverse x)) \<longlongrightarrow> 0) (at_right 0)"
    by (simp only: minus_zero)
  have eq: "- ((ln (inverse x)) ^ 1 / inverse x) = x * ln x" if "0 < x" for x :: real
    using that by (simp add: ln_inverse divide_inverse)
  have ev: "\<forall>\<^sub>F x in at_right 0. - ((ln (inverse x)) ^ 1 / inverse x) = x * ln (x::real)"
    using eventually_at_right_less [of "0::real"] by eventually_elim (rule eq)
  from lim ev show ?thesis by (rule Lim_transform_eventually)
qed

lemma x_ln2_tendsto: "((\<lambda>x::real. x * (ln x) ^ 2) \<longlongrightarrow> 0) (at_right 0)"
proof -
  have lim: "((\<lambda>x::real. (ln (inverse x)) ^ 2 / inverse x) \<longlongrightarrow> 0) (at_right 0)"
    by (rule ln_pow_over_x_tendsto)
  have eq: "(ln (inverse x)) ^ 2 / inverse x = x * (ln x) ^ 2" if "0 < x" for x :: real
    using that by (simp add: ln_inverse divide_inverse)
  have ev: "\<forall>\<^sub>F x in at_right 0. (ln (inverse x)) ^ 2 / inverse x = x * (ln (x::real)) ^ 2"
    using eventually_at_right_less [of "0::real"] by eventually_elim (rule eq)
  from lim ev show ?thesis by (rule Lim_transform_eventually)
qed

lemma continuous_on_01:
  fixes h :: "real \<Rightarrow> real"
  assumes "(h \<longlongrightarrow> h 0) (at_right 0)" "\<And>x. 0 < x \<Longrightarrow> isCont h x"
  shows "continuous_on {0..1} h"
  unfolding continuous_on_eq_continuous_within
proof
  fix x :: real assume x: "x \<in> {0..1}"
  show "continuous (at x within {0..1}) h"
  proof (cases "x = 0")
    case True
    have "at (0::real) within {0..1} = at_right 0"
      by (rule at_within_Icc_at_right) simp
    with assms(1) True show ?thesis by (simp add: continuous_within)
  next
    case False
    with x have "isCont h x" by (intro assms(2)) simp
    then show ?thesis by (rule continuous_at_imp_continuous_at_within)
  qed
qed

lemma continuous_x_ln: "continuous_on {0..1} (\<lambda>x::real. x * ln x)"
  by (rule continuous_on_01) (use x_ln_tendsto in \<open>auto intro!: continuous_intros\<close>)

lemma continuous_x_ln2: "continuous_on {0..1} (\<lambda>x::real. x * (ln x) ^ 2)"
  by (rule continuous_on_01) (use x_ln2_tendsto in \<open>auto intro!: continuous_intros\<close>)

lemma continuous_flip:
  fixes h :: "real \<Rightarrow> real"
  assumes "continuous_on {0..1} h"
  shows "continuous_on {0..1} (\<lambda>u. h (1 - u))"
  by (rule continuous_on_compose2 [OF assms]) (auto intro!: continuous_intros)

lemma deriv_x_ln:
  assumes "0 < (x::real)"
  shows "((\<lambda>x. x * ln x - x) has_real_derivative ln x) (at x)"
  using assms by (auto intro!: derivative_eq_intros)

lemma deriv_x_ln2:
  assumes "0 < (x::real)"
  shows "((\<lambda>x. x * (ln x) ^ 2 - 2 * (x * ln x) + 2 * x) has_real_derivative (ln x) ^ 2) (at x)"
  using assms by (auto intro!: derivative_eq_intros simp add: power2_eq_square)

lemma deriv_flip:
  fixes K :: "real \<Rightarrow> real"
  assumes "(K has_real_derivative k) (at (1 - u))"
  shows "((\<lambda>u. K (1 - u)) has_real_derivative - k) (at u)"
proof -
  have "((\<lambda>u::real. 1 - u) has_real_derivative - 1) (at u)"
    by (auto intro!: derivative_eq_intros)
  from DERIV_chain2 [OF assms this] show ?thesis by simp
qed

lemma integral01_exponential: "integral01 (\<lambda>u. - ln (1 - u)) 1"
proof (rule integral01_I [of "{}" "\<lambda>u. (1 - u) * ln (1 - u) - (1 - u)"])
  show "continuous_on {0..1} (\<lambda>u::real. (1 - u) * ln (1 - u) - (1 - u))"
    by (intro continuous_intros continuous_flip [OF continuous_x_ln])
  show "((\<lambda>u. (1 - u) * ln (1 - u) - (1 - u)) has_real_derivative - ln (1 - u)) (at u)"
    if "u < 1" for u :: real
    by (rule deriv_flip [where K = "\<lambda>x. x * ln x - x"]) (use that in \<open>auto intro: deriv_x_ln\<close>)
qed simp_all

lemma integral01_exponential_sq: "integral01 (\<lambda>u. (- ln (1 - u)) ^ 2) 2"
proof (rule integral01_I [of "{}"
      "\<lambda>u. - ((1 - u) * (ln (1 - u)) ^ 2 - 2 * ((1 - u) * ln (1 - u)) + 2 * (1 - u))"])
  show "continuous_on {0..1}
          (\<lambda>u::real. - ((1 - u) * (ln (1 - u)) ^ 2 - 2 * ((1 - u) * ln (1 - u)) + 2 * (1 - u)))"
    by (intro continuous_intros continuous_flip [OF continuous_x_ln]
          continuous_flip [OF continuous_x_ln2])
  show "((\<lambda>u. - ((1 - u) * (ln (1 - u)) ^ 2 - 2 * ((1 - u) * ln (1 - u)) + 2 * (1 - u)))
           has_real_derivative (- ln (1 - u)) ^ 2) (at u)"
    if "u < 1" for u :: real
  proof -
    from that have "0 < 1 - u" by simp
    from deriv_flip [where K = "\<lambda>x. x * (ln x) ^ 2 - 2 * (x * ln x) + 2 * x",
        OF deriv_x_ln2 [OF this]]
    have "((\<lambda>u. (1 - u) * (ln (1 - u)) ^ 2 - 2 * ((1 - u) * ln (1 - u)) + 2 * (1 - u))
            has_real_derivative - ((ln (1 - u)) ^ 2)) (at u)" .
    from DERIV_minus [OF this] show ?thesis by simp
  qed
qed simp_all

subsection \<open>Evaluating binary64 roundings\<close>

text \<open>
  A number whose scaling by \<open>2 ^ s\<close> lies in \<open>[2^52, 2^53)\<close> is rounded to the multiple
  \<open>m / 2 ^ s\<close> of \<open>1 / 2 ^ s\<close> nearest to it.
\<close>

lemma round_half_even_eq:
  assumes "\<bar>y - of_int m\<bar> < 1 / 2"
  shows "round_half_even y = m"
proof (cases "of_int m \<le> y")
  case True
  with assms have "\<lfloor>y\<rfloor> = m" by (intro floor_unique) linarith+
  with True assms show ?thesis by (simp add: round_half_even_def Let_def)
next
  case False
  with assms have fl: "\<lfloor>y\<rfloor> = m - 1" by (intro floor_unique) (simp, linarith)+
  from False assms have "1 / 2 < y - of_int (m - 1)" by simp
  with fl show ?thesis by (simp add: round_half_even_def Let_def)
qed

lemma b64_scaled:
  assumes "2 ^ 52 \<le> \<bar>x\<bar> * 2 ^ s" "\<bar>x\<bar> * 2 ^ s < 2 ^ 53" "s \<le> 1074"
  shows "b64 x = of_int (round_half_even (x * 2 ^ s)) / 2 ^ s"
proof -
  have nz: "x \<noteq> 0" using assms(1) by auto
  have ps: "2 powr real s = (2::real) ^ s" by (simp add: powr_realpow)
  have "2 powr (52::real) = (2::real) ^ 52" "2 powr (53::real) = (2::real) ^ 53" by simp_all
  then have p52: "2 powr (52 - real s) = (2::real) ^ 52 / 2 ^ s"
    and p53: "2 powr (53 - real s) = (2::real) ^ 53 / 2 ^ s"
    by (simp_all only: powr_diff ps)
  have lo: "2 powr (52 - real s) \<le> \<bar>x\<bar>"
    unfolding p52 using assms(1) by (simp add: field_simps)
  have hi: "\<bar>x\<bar> < 2 powr (53 - real s)"
    unfolding p53 using assms(2) by (simp add: field_simps)
  have r52: "real_of_int (52 - int s) = 52 - real s" by simp
  have r53: "real_of_int (52 - int s + 1) = 53 - real s" by simp
  have "\<lfloor>log 2 \<bar>x\<bar>\<rfloor> = 52 - int s"
    using floor_log_eq_powr_iff [of "\<bar>x\<bar>" 2 "52 - int s"] nz lo hi
    by (simp only: r52 r53)
  then have e: "max (\<lfloor>log 2 \<bar>x\<bar>\<rfloor> - 52) (- 1074) = - int s"
    using assms(3) by simp
  have q: "2 powr real_of_int (- int s) = 1 / (2::real) ^ s"
  proof -
    have "2 powr real_of_int (- int s) = (2::real) powr (- real s)" by simp
    also have "\<dots> = 1 / 2 powr real s" by (simp only: powr_minus_divide)
    also have "\<dots> = 1 / 2 ^ s" by (simp add: powr_realpow)
    finally show ?thesis .
  qed
  have "b64 x = of_int (round_half_even (x / (1 / 2 ^ s))) * (1 / 2 ^ s)"
    using nz by (simp only: b64_def Let_def e q if_False)
  also have "x / (1 / 2 ^ s) = x * 2 ^ s" by simp
  finally show ?thesis by simp
qed

lemma b64_eq:
  assumes "2 ^ 52 \<le> \<bar>x\<bar> * 2 ^ s" "\<bar>x\<bar> * 2 ^ s < 2 ^ 53" "s \<le> 1074"
    and "\<bar>x * 2 ^ s - of_int m\<bar> < 1 / 2"
  shows "b64 x = of_int m / 2 ^ s"
  by (simp only: b64_scaled [OF assms(1,2,3)] round_half_even_eq [OF assms(4)])

text \<open>A tie goes to the even neighbour.\<close>

lemma round_half_even_tie:
  "round_half_even (of_int m + 1 / 2) = (if even m then m else m + 1)"
proof -
  have "\<lfloor>real_of_int m + 1 / 2\<rfloor> = m" by (intro floor_unique) simp_all
  then show ?thesis by (simp add: round_half_even_def Let_def)
qed

lemma b64_tie:
  assumes "2 ^ 52 \<le> \<bar>x\<bar> * 2 ^ s" "\<bar>x\<bar> * 2 ^ s < 2 ^ 53" "s \<le> 1074"
    and "x * 2 ^ s = of_int m + 1 / 2"
  shows "b64 x = of_int (if even m then m else m + 1) / 2 ^ s"
  by (simp only: b64_scaled [OF assms(1,2,3)] assms(4) round_half_even_tie)


lemma b64_sqrt_eq:
  assumes "2 ^ 52 < m" "m < 2 ^ 53" "s \<le> 1074"
    and "(of_int m - 1 / 2) ^ 2 < v * 4 ^ s" "v * 4 ^ s < (of_int m + 1 / 2) ^ 2"
  shows "b64 (sqrt v) = of_int m / 2 ^ s"
proof (rule b64_eq [OF _ _ assms(3)])
  have m: "(2::real) ^ 52 + 1 \<le> of_int m" "real_of_int m + 1 \<le> 2 ^ 53"
  proof -
    from assms(1) have "2 ^ 52 + 1 \<le> m" by simp
    then have "real_of_int (2 ^ 52 + 1) \<le> of_int m" by (simp only: of_int_le_iff)
    then show "(2::real) ^ 52 + 1 \<le> of_int m" by simp
    from assms(2) have "m + 1 \<le> 2 ^ 53" by simp
    then have "real_of_int (m + 1) \<le> real_of_int (2 ^ 53)" by (simp only: of_int_le_iff)
    then show "real_of_int m + 1 \<le> 2 ^ 53" by simp
  qed
  have four: "(4::real) ^ s = (2 ^ s) ^ 2"
  proof -
    have "(4::real) = 2 ^ 2" by simp
    then have "(4::real) ^ s = (2 ^ 2) ^ s" by (simp only:)
    also have "\<dots> = (2 ^ s) ^ 2" by (simp only: power_mult [symmetric] mult.commute)
    finally show ?thesis .
  qed
  have w: "sqrt v * 2 ^ s = sqrt (v * 4 ^ s)"
    by (simp add: four real_sqrt_mult)
  have lo: "of_int m - 1 / 2 < sqrt (v * 4 ^ s)"
    using assms(4) m(1) by (intro real_less_rsqrt) simp
  have hi: "sqrt (v * 4 ^ s) < of_int m + 1 / 2"
    using assms(5) m(1) by (intro real_less_lsqrt) simp_all
  have big: "(0::real) < 2 ^ 52" by simp
  have "0 < sqrt (v * 4 ^ s)" using lo m(1) big by linarith
  then have "0 < v * 4 ^ s" by (simp only: real_sqrt_gt_0_iff)
  then have "0 < v" by (simp add: zero_less_mult_iff)
  then have pos: "\<bar>sqrt v\<bar> = sqrt v" by simp
  show "2 ^ 52 \<le> \<bar>sqrt v\<bar> * 2 ^ s" using lo m(1) by (simp only: pos w; linarith)
  show "\<bar>sqrt v\<bar> * 2 ^ s < 2 ^ 53" using hi m(2) by (simp only: pos w; linarith)
  show "\<bar>sqrt v * 2 ^ s - of_int m\<bar> < 1 / 2" using lo hi by (simp only: w abs_less_iff; linarith)
qed

lemma b64_zero: "b64 0 = 0"
  by (simp add: b64_def)

lemma sqrt_within:
  assumes "0 \<le> r - e" "(r - e) ^ 2 \<le> v" "v \<le> (r + e) ^ 2" "0 \<le> e"
  shows "\<bar>r - sqrt v\<bar> \<le> e"
proof -
  have "r - e \<le> sqrt v" using assms(1,2) by (intro real_le_rsqrt)
  moreover have "sqrt v \<le> r + e"
    using assms by (intro real_le_lsqrt) simp_all
  ultimately show ?thesis by (simp add: abs_le_iff)
qed

subsection \<open>The constants of the registry\<close>

text \<open>
  The roundings that the code makes for the skewed distribution, one by one. Two of them
  are ties: \<open>0.7 + 0.2\<close> lies halfway between two binary64 numbers and goes down, to
  \<open>0.8999999999999999\<close>; ten times \<open>1 - 0.7 - 0.2\<close> goes up.
\<close>

lemma round_p1: "b64 0.7 = 6305039478318694 / 2 ^ 53"
  using b64_eq [where x = "0.7" and s = 53 and m = 6305039478318694] by simp

lemma round_p2: "b64 0.2 = 7205759403792794 / 2 ^ 55"
  using b64_eq [where x = "0.2" and s = 55 and m = 7205759403792794] by simp

lemma round_threshold:
  "b64 (6305039478318694 / 2 ^ 53 + 7205759403792794 / 2 ^ 55) = 8106479329266892 / 2 ^ 53"
  using b64_tie [where x = "6305039478318694 / 2 ^ 53 + 7205759403792794 / 2 ^ 55"
      and s = 53 and m = 8106479329266892] by simp

lemma round_rest1: "b64 (1 - 6305039478318694 / 2 ^ 53) = 5404319552844596 / 2 ^ 54"
  using b64_eq [where x = "1 - 6305039478318694 / 2 ^ 53" and s = 54
      and m = 5404319552844596] by simp

lemma round_rest2:
  "b64 (5404319552844596 / 2 ^ 54 - 7205759403792794 / 2 ^ 55) = 7205759403792796 / 2 ^ 56"
  using b64_eq [where x = "5404319552844596 / 2 ^ 54 - 7205759403792794 / 2 ^ 55"
      and s = 56 and m = 7205759403792796] by simp

lemma round_head:
  "b64 (0 * (6305039478318694 / 2 ^ 53)) = 0"
  "b64 (1 * (7205759403792794 / 2 ^ 55)) = 7205759403792794 / 2 ^ 55"
  "b64 (0 + 7205759403792794 / 2 ^ 55) = 7205759403792794 / 2 ^ 55"
proof -
  have b: "b64 (7205759403792794 / 2 ^ 55) = 7205759403792794 / 2 ^ 55"
    using b64_eq [where x = "7205759403792794 / 2 ^ 55" and s = 55
        and m = 7205759403792794] by simp
  show "b64 (0 * (6305039478318694 / 2 ^ 53)) = 0" by (simp add: b64_zero)
  show "b64 (1 * (7205759403792794 / 2 ^ 55)) = 7205759403792794 / 2 ^ 55"
    using b by simp
  show "b64 (0 + 7205759403792794 / 2 ^ 55) = 7205759403792794 / 2 ^ 55"
    using b by simp
qed

lemma round_ten: "b64 (10 * (7205759403792796 / 2 ^ 56)) = 4503599627370498 / 2 ^ 52"
  using b64_tie [where x = "10 * (7205759403792796 / 2 ^ 56)" and s = 52
      and m = 4503599627370497] by simp

lemma round_hundred: "b64 (100 * (7205759403792796 / 2 ^ 56)) = 5629499534213122 / 2 ^ 49"
  using b64_eq [where x = "100 * (7205759403792796 / 2 ^ 56)" and s = 49
      and m = 5629499534213122] by simp

lemma round_mean:
  "b64 (7205759403792794 / 2 ^ 55 + 4503599627370498 / 2 ^ 52) = 5404319552844597 / 2 ^ 52"
  using b64_eq [where x = "7205759403792794 / 2 ^ 55 + 4503599627370498 / 2 ^ 52"
      and s = 52 and m = 5404319552844597] by simp

lemma round_mean_sq:
  "b64 (7205759403792794 / 2 ^ 55 + 5629499534213122 / 2 ^ 49) = 5742089524897384 / 2 ^ 49"
  using b64_eq [where x = "7205759403792794 / 2 ^ 55 + 5629499534213122 / 2 ^ 49"
      and s = 49 and m = 5742089524897384] by simp

lemma round_square: "b64 ((5404319552844597 / 2 ^ 52) ^ 2) = 6485183463413519 / 2 ^ 52"
  using b64_eq [where x = "(5404319552844597 / 2 ^ 52) ^ 2" and s = 52
      and m = 6485183463413519] by (simp add: power2_eq_square)

lemma round_var:
  "b64 (5742089524897384 / 2 ^ 49 - 6485183463413519 / 2 ^ 52) = 4931441591970694 / 2 ^ 49"
  using b64_eq [where x = "5742089524897384 / 2 ^ 49 - 6485183463413519 / 2 ^ 52"
      and s = 49 and m = 4931441591970694] by simp

lemma round_std: "b64 (sqrt (4931441591970694 / 2 ^ 49)) = 6664718826176928 / 2 ^ 51"
  using b64_sqrt_eq [where v = "4931441591970694 / 2 ^ 49" and s = 51
      and m = 6664718826176928] by (simp add: power2_eq_square)

lemma skewed_p_values:
  "skewed_p1 = 6305039478318694 / 2 ^ 53" "skewed_p2 = 7205759403792794 / 2 ^ 55"
  "b64 (skewed_p1 + skewed_p2) = 8106479329266892 / 2 ^ 53"
  by (simp_all only: skewed_p1_def skewed_p2_def round_p1 round_p2 round_threshold)

lemma skewed_values:
  "skewed_mean = 5404319552844597 / 2 ^ 52"
  "skewed_mean_sq = 5742089524897384 / 2 ^ 49"
  "skewed_var = 4931441591970694 / 2 ^ 49"
  "b64 (sqrt skewed_var) = 6664718826176928 / 2 ^ 51"
proof -
  show m: "skewed_mean = 5404319552844597 / 2 ^ 52"
    by (simp only: skewed_mean_def skewed_p_values round_head round_rest1 round_rest2
          round_ten round_mean)
  show sq: "skewed_mean_sq = 5742089524897384 / 2 ^ 49"
    by (simp only: skewed_mean_sq_def skewed_p_values round_head round_rest1 round_rest2
          round_hundred round_mean_sq)
  show v: "skewed_var = 4931441591970694 / 2 ^ 49"
    by (simp only: skewed_var_def m sq round_square round_var)
  show "b64 (sqrt skewed_var) = 6664718826176928 / 2 ^ 51"
    by (simp only: v round_std)
qed

lemma skewed_dist_values:
  "mean skewed_dist = 5404319552844597 / 2 ^ 52"
  "std skewed_dist = 6664718826176928 / 2 ^ 51"
  "random skewed_dist =
     (\<lambda>val. if val < 6305039478318694 / 2 ^ 53 then 0
            else if val < 8106479329266892 / 2 ^ 53 then 1 else 10)"
  by (simp_all only: skewed_dist_def distribution.simps skewed_values skewed_p_values
        round_threshold round_std)

lemma uniform_std_value: "std uniform_dist = 5200308914369309 / 2 ^ 54"
proof -
  have r: "b64 (sqrt 12) = 7800463371553962 / 2 ^ 51"
    using b64_sqrt_eq [where v = 12 and s = 51 and m = 7800463371553962]
    by (simp add: power2_eq_square)
  have "b64 (1 / (7800463371553962 / 2 ^ 51)) = 5200308914369309 / 2 ^ 54"
    using b64_eq [where x = "1 / (7800463371553962 / 2 ^ 51)" and s = 54
        and m = 5200308914369309] by simp
  then show ?thesis
    by (simp only: uniform_dist_def distribution.simps r)
qed

lemma nearest_values:
  "b64 (12 / 10) = 5404319552844595 / 2 ^ 52"
  "b64 (sqrt (b64 (876 / 100))) = 6664718826176927 / 2 ^ 51"
proof -
  show "b64 (12 / 10) = 5404319552844595 / 2 ^ 52"
    using b64_eq [where x = "12 / 10" and s = 52 and m = 5404319552844595] by simp
  have v: "b64 (876 / 100) = 4931441591970693 / 2 ^ 49"
    using b64_eq [where x = "876 / 100" and s = 49 and m = 4931441591970693] by simp
  have "b64 (sqrt (4931441591970693 / 2 ^ 49)) = 6664718826176927 / 2 ^ 51"
    using b64_sqrt_eq [where v = "4931441591970693 / 2 ^ 49" and s = 51
        and m = 6664718826176927] by (simp add: power2_eq_square)
  then show "b64 (sqrt (b64 (876 / 100))) = 6664718826176927 / 2 ^ 51"
    by (simp only: v)
qed

subsection \<open>The laws of the samplers and the declared moments\<close>

lemma agrees_within_mono: "agrees_within d e \<Longrightarrow> e \<le> e' \<Longrightarrow> agrees_within d e'"
  unfolding agrees_within_def by (meson order_trans)

lemma law_uniform: "law_mean_std (random uniform_dist) (mean uniform_dist) (1 / sqrt 12)"
proof -
  have "sqrt (1 / 3 - (1 / 2) ^ 2) = sqrt (1 / 12)"
    by (simp add: power2_eq_square)
  also have "\<dots> = 1 / sqrt 12"
    by (simp add: real_sqrt_divide)
  finally have s: "1 / sqrt 12 = sqrt (1 / 3 - (mean uniform_dist) ^ 2)"
    by (simp add: uniform_dist_def)
  have m1: "integral01 (random uniform_dist) (mean uniform_dist)"
    using integral01_identity by (simp add: uniform_dist_def)
  have m2: "integral01 (\<lambda>u. (random uniform_dist u) ^ 2) (1 / 3)"
    using integral01_square by (simp add: uniform_dist_def)
  from m1 m2 s show ?thesis
    unfolding law_mean_std_def by blast
qed

lemma uniform_std_close: "\<bar>std uniform_dist - 1 / sqrt 12\<bar> \<le> 1 / 10 ^ 16"
proof -
  have "1 / sqrt 12 = sqrt (1 / 12)" by (simp add: real_sqrt_divide)
  moreover have "\<bar>5200308914369309 / 2 ^ 54 - sqrt (1 / 12)\<bar> \<le> 1 / 10 ^ 16"
    by (rule sqrt_within) (simp_all add: power2_eq_square)
  ultimately show ?thesis by (simp only: uniform_std_value)
qed

lemma agrees_uniform: "agrees_within uniform_dist (1 / 10 ^ 16)"
  unfolding agrees_within_def
  using law_uniform uniform_std_close
  by (intro exI [of _ "mean uniform_dist"] exI [of _ "1 / sqrt 12"]) simp

lemma law_exponential:
  "law_mean_std (random exponential_dist) (mean exponential_dist) (std exponential_dist)"
proof -
  have m1: "integral01 (random exponential_dist) (mean exponential_dist)"
    using integral01_exponential by (simp add: exponential_dist_def)
  have m2: "integral01 (\<lambda>u. (random exponential_dist u) ^ 2) 2"
    using integral01_exponential_sq by (simp add: exponential_dist_def)
  have s: "std exponential_dist = sqrt (2 - (mean exponential_dist) ^ 2)"
    by (simp add: exponential_dist_def)
  from m1 m2 s show ?thesis
    unfolding law_mean_std_def by blast
qed

lemma law_bernoulli:
  "law_mean_std (random bernoulli_dist) (mean bernoulli_dist) (std bernoulli_dist)"
proof -
  have step: "integral01 (\<lambda>u::real. if u < 1 / 2 then 1 else if u < 1 / 2 then 0 else 0)
                (1 / 2 * 1 + (1 / 2 - 1 / 2) * 0 + (1 - 1 / 2) * 0)"
    by (rule integral01_step) simp_all
  have fn: "(\<lambda>u::real. if u < 1 / 2 then (1::real) else if u < 1 / 2 then 0 else 0)
          = random bernoulli_dist"
    by (auto simp add: bernoulli_dist_def fun_eq_iff)
  have fn2: "(\<lambda>u::real. if u < 1 / 2 then (1::real) else if u < 1 / 2 then 0 else 0)
          = (\<lambda>u. (random bernoulli_dist u) ^ 2)"
    by (auto simp add: bernoulli_dist_def fun_eq_iff)
  have val: "(1 / 2 * 1 + (1 / 2 - 1 / 2) * 0 + (1 - 1 / 2) * 0 :: real) = mean bernoulli_dist"
    by (simp add: bernoulli_dist_def)
  from step have m1: "integral01 (random bernoulli_dist) (mean bernoulli_dist)"
    by (simp only: fn val)
  from step have m2: "integral01 (\<lambda>u. (random bernoulli_dist u) ^ 2) (mean bernoulli_dist)"
    by (simp only: fn2 val)
  have "sqrt (1 / 2 - (1 / 2) ^ 2) = sqrt ((1 / 2) ^ 2)"
    by (simp add: power2_eq_square)
  also have "\<dots> = 1 / 2"
    by simp
  finally have s: "std bernoulli_dist = sqrt (mean bernoulli_dist - (mean bernoulli_dist) ^ 2)"
    by (simp add: bernoulli_dist_def)
  from m1 m2 s show ?thesis
    unfolding law_mean_std_def by blast
qed

lemma agrees_exact:
  "law_mean_std (random d) (mean d) (std d) \<Longrightarrow> agrees_within d 0"
  unfolding agrees_within_def by (intro exI [of _ "mean d"] exI [of _ "std d"]) simp

text \<open>
  The law of the skewed sampler, with the thresholds it really compares with: its mean
  and its second moment are the rationals below.
\<close>

lemma law_skewed:
  "law_mean_std (random skewed_dist)
     ((8106479329266892 / 2 ^ 53 - 6305039478318694 / 2 ^ 53) * 1
        + (1 - 8106479329266892 / 2 ^ 53) * 10)
     (sqrt ((8106479329266892 / 2 ^ 53 - 6305039478318694 / 2 ^ 53) * 1
              + (1 - 8106479329266892 / 2 ^ 53) * 100
            - ((8106479329266892 / 2 ^ 53 - 6305039478318694 / 2 ^ 53) * 1
                 + (1 - 8106479329266892 / 2 ^ 53) * 10) ^ 2))"
proof -
  have step: "integral01
      (\<lambda>u::real. if u < 6305039478318694 / 2 ^ 53 then c0
                  else if u < 8106479329266892 / 2 ^ 53 then c1 else c2)
      (6305039478318694 / 2 ^ 53 * c0
         + (8106479329266892 / 2 ^ 53 - 6305039478318694 / 2 ^ 53) * c1
         + (1 - 8106479329266892 / 2 ^ 53) * c2)" for c0 c1 c2 :: real
    by (rule integral01_step) simp_all
  have fn2: "(\<lambda>u::real. if u < 6305039478318694 / 2 ^ 53 then (0::real)
                  else if u < 8106479329266892 / 2 ^ 53 then 1 else 100)
          = (\<lambda>u. (random skewed_dist u) ^ 2)"
    by (simp add: skewed_dist_values fun_eq_iff)
  from step [of 0 1 10] have m1: "integral01 (random skewed_dist)
      ((8106479329266892 / 2 ^ 53 - 6305039478318694 / 2 ^ 53) * 1
        + (1 - 8106479329266892 / 2 ^ 53) * 10)"
    by (simp only: skewed_dist_values(3) [symmetric] mult_zero_right add_0_left)
  from step [of 0 1 100] have m2: "integral01 (\<lambda>u. (random skewed_dist u) ^ 2)
      ((8106479329266892 / 2 ^ 53 - 6305039478318694 / 2 ^ 53) * 1
        + (1 - 8106479329266892 / 2 ^ 53) * 100)"
    by (simp only: fn2 mult_zero_right add_0_left)
  from m1 m2 show ?thesis
    unfolding law_mean_std_def by blast
qed

lemma agrees_skewed: "agrees_within skewed_dist (1 / 10 ^ 15)"
  unfolding agrees_within_def
proof (intro exI conjI)
  show "law_mean_std (random skewed_dist)
     ((8106479329266892 / 2 ^ 53 - 6305039478318694 / 2 ^ 53) * 1
        + (1 - 8106479329266892 / 2 ^ 53) * 10)
     (sqrt ((8106479329266892 / 2 ^ 53 - 6305039478318694 / 2 ^ 53) * 1
              + (1 - 8106479329266892 / 2 ^ 53) * 100
            - ((8106479329266892 / 2 ^ 53 - 6305039478318694 / 2 ^ 53) * 1
                 + (1 - 8106479329266892 / 2 ^ 53) * 10) ^ 2))"
    by (rule law_skewed)
  show "\<bar>mean skewed_dist
          - ((8106479329266892 / 2 ^ 53 - 6305039478318694 / 2 ^ 53) * 1
               + (1 - 8106479329266892 / 2 ^ 53) * 10)\<bar> \<le> 1 / 10 ^ 15"
    by (simp add: skewed_dist_values)
  show "\<bar>std skewed_dist
          - sqrt ((8106479329266892 / 2 ^ 53 - 6305039478318694 / 2 ^ 53) * 1
                    + (1 - 8106479329266892 / 2 ^ 53) * 100
                  - ((8106479329266892 / 2 ^ 53 - 6305039478318694 / 2 ^ 53) * 1
                       + (1 - 8106479329266892 / 2 ^ 53) * 10) ^ 2)\<bar> \<le> 1 / 10 ^ 15"
    unfolding skewed_dist_values
    by (rule sqrt_within) (simp_all add: power2_eq_square)
qed

lemma skewed_close:
  "\<bar>mean skewed_dist - 1.2\<bar> \<le> 1 / 10 ^ 15" "\<bar>std skewed_dist - sqrt 8.76\<bar> \<le> 1 / 10 ^ 15"
proof -
  show "\<bar>mean skewed_dist - 1.2\<bar> \<le> 1 / 10 ^ 15"
    by (simp add: skewed_dist_values)
  show "\<bar>std skewed_dist - sqrt 8.76\<bar> \<le> 1 / 10 ^ 15"
    unfolding skewed_dist_values
    by (rule sqrt_within) (simp_all add: power2_eq_square)
qed

lemma distributions_simps:
  "distributions ''Uniform'' = Some uniform_dist"
  "distributions ''Exponential'' = Some exponential_dist"
  "distributions ''Bernoulli'' = Some bernoulli_dist"
  "distributions ''Skewed Discrete'' = Some skewed_dist"
  by (simp_all add: distributions_def)

lemma registered_cases:
  assumes "name \<in> set registered_names"
  shows "name = ''Uniform'' \<or> name = ''Exponential'' \<or> name = ''Bernoulli''
       \<or> name = ''Skewed Discrete''"
  using assms unfolding registered_names_def by simp

text \<open>
  C1, as the code has it. The declared \<open>mean\<close> and \<open>std\<close> of each registered entry agree
  with the mean and the standard deviation of the law of its sampler to within
  \<open>10^-15\<close>: they would be equal in real arithmetic, and the code computes them in
  binary64. Exponential and Bernoulli are exact; for Uniform the mean is exact and the
  std is the rounded \<open>1 / sqrt 12\<close>. For the skewed discrete entry the sampler returns 0, 1
  and 10 on \<open>[0, p1)\<close>, \<open>[p1, t)\<close> and \<open>[t, 1)\<close>, where \<open>p1\<close> is the binary64 number nearest
  0.7 and \<open>t\<close> the rounded sum \<open>0.7 + 0.2 = 0.8999999999999999\<close>, each within \<open>10^-16\<close> of
  0.7 and 0.9; the declared mean is the binary64 number \<open>1.2000000000000004\<close> and the
  declared std is \<open>2.9597297173897488\<close>, within \<open>10^-15\<close> of 1.2 and of \<open>sqrt 8.76\<close>.
\<close>

theorem registry_moments_up_to_rounding:
  "(\<forall>name\<in>set registered_names.
      \<exists>d. distributions name = Some d \<and> agrees_within d (1 / 10 ^ 15))
   \<and> agrees_within exponential_dist 0
   \<and> agrees_within bernoulli_dist 0
   \<and> law_mean_std (random uniform_dist) (mean uniform_dist) (1 / sqrt 12)
   \<and> \<bar>std uniform_dist - 1 / sqrt 12\<bar> \<le> 1 / 10 ^ 16
   \<and> distributions ''Skewed Discrete'' = Some skewed_dist
   \<and> skewed_p1 = 6305039478318694 / 2 ^ 53
   \<and> b64 (skewed_p1 + skewed_p2) = 8106479329266892 / 2 ^ 53
   \<and> \<bar>skewed_p1 - 0.7\<bar> \<le> 1 / 10 ^ 16
   \<and> \<bar>b64 (skewed_p1 + skewed_p2) - 0.9\<bar> \<le> 1 / 10 ^ 16
   \<and> (\<forall>u. (0 \<le> u \<and> u < skewed_p1 \<longrightarrow> random skewed_dist u = 0)
         \<and> (skewed_p1 \<le> u \<and> u < b64 (skewed_p1 + skewed_p2) \<longrightarrow> random skewed_dist u = 1)
         \<and> (b64 (skewed_p1 + skewed_p2) \<le> u \<and> u < 1 \<longrightarrow> random skewed_dist u = 10))
   \<and> mean skewed_dist = 5404319552844597 / 2 ^ 52
   \<and> std skewed_dist = 6664718826176928 / 2 ^ 51
   \<and> \<bar>mean skewed_dist - 1.2\<bar> \<le> 1 / 10 ^ 15
   \<and> \<bar>std skewed_dist - sqrt 8.76\<bar> \<le> 1 / 10 ^ 15"
proof (intro conjI ballI allI)
  fix name assume "name \<in> set registered_names"
  from registered_cases [OF this]
  show "\<exists>d. distributions name = Some d \<and> agrees_within d (1 / 10 ^ 15)"
  proof (elim disjE)
    assume "name = ''Uniform''"
    moreover have "agrees_within uniform_dist (1 / 10 ^ 15)"
      by (rule agrees_within_mono [OF agrees_uniform]) simp
    ultimately show ?thesis by (simp only: distributions_simps) blast
  next
    assume "name = ''Exponential''"
    moreover have "agrees_within exponential_dist (1 / 10 ^ 15)"
      by (rule agrees_within_mono [OF agrees_exact [OF law_exponential]]) simp
    ultimately show ?thesis by (simp only: distributions_simps) blast
  next
    assume "name = ''Bernoulli''"
    moreover have "agrees_within bernoulli_dist (1 / 10 ^ 15)"
      by (rule agrees_within_mono [OF agrees_exact [OF law_bernoulli]]) simp
    ultimately show ?thesis by (simp only: distributions_simps) blast
  next
    assume "name = ''Skewed Discrete''"
    with agrees_skewed show ?thesis by (simp only: distributions_simps) blast
  qed
next
  show "agrees_within exponential_dist 0" by (rule agrees_exact [OF law_exponential])
  show "agrees_within bernoulli_dist 0" by (rule agrees_exact [OF law_bernoulli])
  show "law_mean_std (random uniform_dist) (mean uniform_dist) (1 / sqrt 12)"
    by (rule law_uniform)
  show "\<bar>std uniform_dist - 1 / sqrt 12\<bar> \<le> 1 / 10 ^ 16" by (rule uniform_std_close)
  show "distributions ''Skewed Discrete'' = Some skewed_dist" by (rule distributions_simps)
  show "skewed_p1 = 6305039478318694 / 2 ^ 53" by (rule skewed_p_values)
  show "b64 (skewed_p1 + skewed_p2) = 8106479329266892 / 2 ^ 53" by (rule skewed_p_values)
  show "\<bar>skewed_p1 - 0.7\<bar> \<le> 1 / 10 ^ 16" by (simp add: skewed_p_values)
  show "\<bar>b64 (skewed_p1 + skewed_p2) - 0.9\<bar> \<le> 1 / 10 ^ 16"
    unfolding skewed_p_values(3) by simp
  show "mean skewed_dist = 5404319552844597 / 2 ^ 52" by (rule skewed_dist_values)
  show "std skewed_dist = 6664718826176928 / 2 ^ 51" by (rule skewed_dist_values)
  show "\<bar>mean skewed_dist - 1.2\<bar> \<le> 1 / 10 ^ 15" by (rule skewed_close)
  show "\<bar>std skewed_dist - sqrt 8.76\<bar> \<le> 1 / 10 ^ 15" by (rule skewed_close)
next
  fix u :: real
  show "0 \<le> u \<and> u < skewed_p1 \<longrightarrow> random skewed_dist u = 0"
    by (simp add: skewed_dist_values skewed_p_values)
  show "skewed_p1 \<le> u \<and> u < b64 (skewed_p1 + skewed_p2) \<longrightarrow> random skewed_dist u = 1"
    unfolding skewed_p_values(3) by (simp add: skewed_dist_values skewed_p_values(1))
  show "b64 (skewed_p1 + skewed_p2) \<le> u \<and> u < 1 \<longrightarrow> random skewed_dist u = 10"
    unfolding skewed_p_values(3) by (simp add: skewed_dist_values)
qed

theorem registry_moments_up_to_rounding_witness:
  "''Skewed Discrete'' \<in> set registered_names
   \<and> (\<exists>d. distributions ''Skewed Discrete'' = Some d \<and> agrees_within d (1 / 10 ^ 15))
   \<and> skewed_p1 \<le> 0.8 \<and> 0.8 < b64 (skewed_p1 + skewed_p2)
   \<and> random skewed_dist 0.8 = 1"
proof -
  have n: "''Skewed Discrete'' \<in> set registered_names" by (simp add: registered_names_def)
  have all: "\<forall>name\<in>set registered_names.
      \<exists>d. distributions name = Some d \<and> agrees_within d (1 / 10 ^ 15)"
    by (rule conjunct1 [OF registry_moments_up_to_rounding])
  note ex = bspec [OF all n]
  have r: "skewed_p1 \<le> 0.8" "0.8 < b64 (skewed_p1 + skewed_p2)"
    unfolding skewed_p_values(3) by (simp_all add: skewed_p_values(1))
  from registry_moments_up_to_rounding
  have "\<forall>u. (0 \<le> u \<and> u < skewed_p1 \<longrightarrow> random skewed_dist u = 0)
         \<and> (skewed_p1 \<le> u \<and> u < b64 (skewed_p1 + skewed_p2) \<longrightarrow> random skewed_dist u = 1)
         \<and> (b64 (skewed_p1 + skewed_p2) \<le> u \<and> u < 1 \<longrightarrow> random skewed_dist u = 10)"
    by (elim conjE)
  then have "skewed_p1 \<le> 0.8 \<and> 0.8 < b64 (skewed_p1 + skewed_p2)
      \<longrightarrow> random skewed_dist 0.8 = 1"
    by blast
  with r have "random skewed_dist 0.8 = 1" by (simp only: simp_thms)
  with n ex r show ?thesis by (simp only: simp_thms)
qed

text \<open>
  C1 as claimed fails. The declared mean is neither 1.2 nor the binary64 number nearest
  1.2, and the declared std is not the binary64 square root of 8.76; and at the draw
  \<open>0.8999999999999999\<close>, a binary64 number of \<open>[0.7, 0.9)\<close>, the sampler returns 10, not 1.
\<close>

theorem registry_skewed_not_exact:
  "mean skewed_dist \<noteq> 1.2
   \<and> mean skewed_dist \<noteq> b64 1.2
   \<and> std skewed_dist \<noteq> b64 (sqrt (b64 8.76))
   \<and> 0.7 \<le> b64 (skewed_p1 + skewed_p2)
   \<and> b64 (skewed_p1 + skewed_p2) < 0.9
   \<and> random skewed_dist (b64 (skewed_p1 + skewed_p2)) = 10"
proof -
  have n: "b64 1.2 = 5404319552844595 / 2 ^ 52"
    "b64 (sqrt (b64 8.76)) = 6664718826176927 / 2 ^ 51"
    using nearest_values by simp_all
  show ?thesis
    unfolding n skewed_p_values(3) skewed_dist_values by simp
qed

end
